theory Spec2Isabelle
  imports Main "HOL-Library.Word"
begin

section \<open>Bytes, errors and the Go library objects the code is written against\<close>

text \<open>
  A Go \<open>[]byte\<close> is a \<open>string\<close> (a list of 8-bit characters). Go's \<open>int\<close> is modelled
  as \<open>int\<close>: the program runs on 64-bit platforms and no counter of the model comes near
  \<open>2 ^ 63\<close>. The conversion \<open>uint32(x)\<close> is \<open>word_of_int x :: 32 word\<close>, which drops the
  bits above the 32nd, and \<open>int(u)\<close> of a \<open>uint32\<close> is \<open>uint u\<close>.
\<close>

definition nl :: char where
  "nl = CHR 0x0A"

datatype error =
    ErrShortWrite          \<comment> \<open>\<open>io.ErrShortWrite\<close>\<close>
  | Panic string           \<comment> \<open>a Go panic, with its message; it unwinds through every caller\<close>
  | FileNotFound string    \<comment> \<open>\<open>fmt.Errorf("file `%s` not found", name)\<close>\<close>
  | Failure string         \<comment> \<open>any other error value, opaque\<close>

text \<open>
  An \<open>io.Writer\<close> is an object with one method, \<open>Write(p) (n int, err error)\<close>. It is a
  state of any type with a step function; \<open>seen\<close> is a log of the arguments of the calls
  made so far, kept by \<open>io_Write\<close> and read by no code.
\<close>

record 'w iowriter =
  wstate :: 'w
  wfun :: "'w \<Rightarrow> string \<Rightarrow> nat \<times> error option \<times> 'w"
  seen :: "string list"

definition io_Write :: "'w iowriter \<Rightarrow> string \<Rightarrow> nat \<times> error option \<times> 'w iowriter" where
  "io_Write W p =
     (case wfun W (wstate W) p of
        (m, e, s') \<Rightarrow> (m, e, W\<lparr>wstate := s', seen := seen W @ [p]\<rparr>))"

text \<open>
  \<open>bytes.Buffer\<close> holds its unread bytes: a \<open>string\<close>. \<open>Write\<close> appends and never returns
  an error; \<open>WriteTo\<close> hands all unread bytes to the writer in one call, drops the \<open>m\<close>
  bytes the writer reports, panics when \<open>m\<close> is more than it was given, and reports
  \<open>io.ErrShortWrite\<close> when the writer took fewer bytes without an error of its own.
\<close>

definition Buffer_Write :: "string \<Rightarrow> string \<Rightarrow> int \<times> error option \<times> string" where
  "Buffer_Write b p = (int (length p), None, b @ p)"

definition Buffer_WriteTo ::
  "string \<Rightarrow> 'w iowriter \<Rightarrow> int \<times> error option \<times> string \<times> 'w iowriter" where
  "Buffer_WriteTo b W =
     (if length b > 0 then
        (case io_Write W b of
           (m, e, W') \<Rightarrow>
             if m > length b then
               (0, Some (Panic ''bytes.Buffer.WriteTo: invalid Write count''), b, W')
             else if e \<noteq> None then (int m, e, drop m b, W')
             else if m \<noteq> length b then (int m, Some ErrShortWrite, drop m b, W')
             else (int m, None, [], W'))
      else (0, None, [], W))"

text \<open>\<open>bytes.IndexByte\<close>: the index of the first occurrence, or \<open>-1\<close>.\<close>

fun IndexByte :: "string \<Rightarrow> char \<Rightarrow> int" where
  "IndexByte [] c = - 1"
| "IndexByte (x # xs) c =
     (if x = c then 0
      else (let r = IndexByte xs c in if r < 0 then - 1 else r + 1))"

section \<open>The line-integrity writer (package logio)\<close>

record 'w Writer =
  bufsize :: int
  writer :: "'w iowriter"
  buffer :: string          \<comment> \<open>committed data: finalized lines\<close>
  linebuf :: string         \<comment> \<open>the chunk at the end not yet followed by a newline\<close>
  finished :: bool
  lineCount :: int
  savedLineCount :: int
  prevLineCount :: int
  worthFlushing :: bool

text \<open>
  The field \<open>enc\<close>, the encoder that \<open>DumpState\<close> calls, is no field of the record:
  the encoder is a pair of functions (see the checkpoints below).

  \<open>NewWriterSize\<close>: \<open>buffer.Grow(size)\<close> panics on a negative size, so no writer with
  a negative \<open>bufsize\<close> is ever constructed.
\<close>

definition NewWriterSize :: "'w iowriter \<Rightarrow> int \<Rightarrow> error + 'w Writer" where
  "NewWriterSize W sz =
     (if sz < 0 then Inl (Panic ''bytes.Buffer.Grow: negative count'')
      else Inr \<lparr>bufsize = sz, writer = W, buffer = [], linebuf = [], finished = True,
                lineCount = 0, savedLineCount = 0, prevLineCount = 0,
                worthFlushing = True\<rparr>)"

definition defaultBufferSize :: int where
  "defaultBufferSize = 128 * 1024 * 1024"

definition NewWriter :: "'w iowriter \<Rightarrow> error + 'w Writer" where
  "NewWriter W = NewWriterSize W defaultBufferSize"

definition Flush :: "'w Writer \<Rightarrow> error option \<times> 'w Writer" where
  "Flush w =
     (if length (buffer w) > 0 then
        (case Buffer_WriteTo (buffer w) (writer w) of
           (n, err, b', W') \<Rightarrow>
             (let w1 = w\<lparr>buffer := b', writer := W'\<rparr> in
              if err \<noteq> None then (err, w1)
              else (None, w1\<lparr>buffer := [], savedLineCount := lineCount w1\<rparr>)))
      else (None, w\<lparr>buffer := [], savedLineCount := lineCount w\<rparr>))"

text \<open>\<open>io.Copy\<close> from a \<open>bytes.Buffer\<close> is that buffer's \<open>WriteTo\<close>.\<close>

definition FlushAll :: "'w Writer \<Rightarrow> error option \<times> 'w Writer" where
  "FlushAll w =
     (case Flush w of
        (Some e, w1) \<Rightarrow> (Some e, w1)
      | (None, w1) \<Rightarrow>
          if length (linebuf w1) > 0 then
            (case Buffer_WriteTo (linebuf w1) (writer w1) of
               (n, err, lb, W') \<Rightarrow>
                 (let w2 = w1\<lparr>linebuf := lb, writer := W'\<rparr> in
                  if err \<noteq> None then (err, w2) else (None, w2\<lparr>linebuf := []\<rparr>)))
          else (None, w1\<lparr>linebuf := []\<rparr>))"

text \<open>
  The body of \<open>Write\<close>'s loop for a chunk that holds a newline, in three parts, in the
  order of the source: the staged bytes are put in front of the line
  (\<open>Write_stage\<close>), room is made for it (\<open>Write_make_room\<close>), and it is appended
  (\<open>Write_append\<close>).
\<close>

definition Write_stage :: "'w Writer \<Rightarrow> string \<Rightarrow> error option \<times> string \<times> 'w Writer" where
  "Write_stage w line =
     (if \<not> finished w then
        (case Buffer_Write (linebuf w) line of
           (n, err, lb) \<Rightarrow>
             if err \<noteq> None then (err, line, w\<lparr>linebuf := lb\<rparr>)
             else (None, lb, w\<lparr>linebuf := []\<rparr>))
      else (None, line, w))"

definition Write_make_room :: "'w Writer \<Rightarrow> string \<Rightarrow> error option \<times> 'w Writer" where
  "Write_make_room w line =
     (if int (length (buffer w)) + int (length line) > bufsize w then
        Flush (w\<lparr>worthFlushing := False\<rparr>)
      else (None, w))"

definition Write_append :: "'w Writer \<Rightarrow> string \<Rightarrow> error option \<times> 'w Writer" where
  "Write_append w line =
     (case Buffer_Write (buffer w) line of (n, err, b) \<Rightarrow> (err, w\<lparr>buffer := b\<rparr>))"

definition Write_line :: "'w Writer \<Rightarrow> string \<Rightarrow> error option \<times> 'w Writer" where
  "Write_line w line0 =
     (case Write_stage w line0 of
        (Some e, line, w1) \<Rightarrow> (Some e, w1)
      | (None, line, w1) \<Rightarrow>
          (case Write_make_room w1 line of
             (Some e, w2) \<Rightarrow> (Some e, w2)
           | (None, w2) \<Rightarrow> Write_append w2 line))"

function Write_loop :: "'w Writer \<Rightarrow> string \<Rightarrow> int \<Rightarrow> int \<times> error option \<times> 'w Writer" where
  "Write_loop w data nn =
     (if length data > 0 then
        (if IndexByte data nl < 0 then
           (case Buffer_Write (linebuf w) data of
              (n, err, lb) \<Rightarrow>
                if err \<noteq> None then (nn + n, err, w\<lparr>linebuf := lb\<rparr>)
                else (nn + n, err, w\<lparr>linebuf := lb, finished := False\<rparr>))
         else
           (case Write_line w (take (nat (IndexByte data nl + 1)) data) of
              (Some e, w') \<Rightarrow> (nn, Some e, w')
            | (None, w') \<Rightarrow>
                Write_loop (w'\<lparr>lineCount := lineCount w' + 1, finished := True\<rparr>)
                  (drop (nat (IndexByte data nl + 1)) data)
                  (nn + (IndexByte data nl + 1))))
      else (nn, None, w))"
  by pat_completeness auto
termination
  by (relation "measure (\<lambda>(w, data, nn). length data)") auto

declare Write_loop.simps [simp del]

definition Write :: "'w Writer \<Rightarrow> string \<Rightarrow> int \<times> error option \<times> 'w Writer" where
  "Write w data = Write_loop w data 0"

definition LinesBuffered :: "'w Writer \<Rightarrow> int" where
  "LinesBuffered w = lineCount w - savedLineCount w"

definition LinesWritten :: "'w Writer \<Rightarrow> int" where
  "LinesWritten w = savedLineCount w"

definition WorthFlushing :: "'w Writer \<Rightarrow> bool \<times> 'w Writer" where
  "WorthFlushing w =
     (let res = (worthFlushing w \<and> savedLineCount w \<noteq> lineCount w
                 \<and> savedLineCount w = prevLineCount w)
      in (res, w\<lparr>prevLineCount := savedLineCount w, worthFlushing := True\<rparr>))"


subsection \<open>Checkpoints\<close>

text \<open>
  Modelled from the spec: the packages \<open>binenc\<close> (the encoder behind \<open>w.enc\<close>) and
  \<open>bindec\<close> (the reader \<open>rr\<close>) are not among the source files. The spec's checkpoint
  format gives a \<open>u32\<close> four bytes in a fixed byte order (here: least significant byte
  first) and a flag one byte, 0 or 1; a read reports \<open>ok = false\<close> and consumes nothing
  when fewer bytes are left than it needs. The reader's state is the bytes not yet read.
\<close>

definition binenc_Uint32 :: "32 word \<Rightarrow> string" where
  "binenc_Uint32 v =
     (let n = unat v
      in [char_of n, char_of (n div 256), char_of (n div 65536), char_of (n div 16777216)])"

definition binenc_Bool :: "bool \<Rightarrow> string" where
  "binenc_Bool b = [if b then CHR 0x01 else CHR 0x00]"

definition bindec_New :: "string \<Rightarrow> string" where
  "bindec_New src = src"

definition le_uint32 :: "string \<Rightarrow> 32 word" where
  "le_uint32 rr =
     word_of_nat (of_char (rr ! 0) + 256 * of_char (rr ! 1)
                  + 65536 * of_char (rr ! 2) + 16777216 * of_char (rr ! 3))"

definition bindec_Uint32 :: "string \<Rightarrow> 32 word \<times> bool \<times> string" where
  "bindec_Uint32 rr =
     (if length rr < 4 then (0, False, rr) else (le_uint32 rr, True, drop 4 rr))"

definition bindec_Bytes :: "string \<Rightarrow> int \<Rightarrow> string \<times> bool \<times> string" where
  "bindec_Bytes rr n =
     (if n < 0 \<or> int (length rr) < n then ([], False, rr)
      else (take (nat n) rr, True, drop (nat n) rr))"

definition bindec_Bool :: "string \<Rightarrow> bool \<times> bool \<times> string" where
  "bindec_Bool rr =
     (case rr of [] \<Rightarrow> (False, False, rr) | b # rest \<Rightarrow> (b \<noteq> CHR 0x00, True, rest))"

text \<open>
  \<open>DumpState\<close> makes ten writes to \<open>dest\<close>, whose results it ignores; the writer is
  returned as the call leaves it.
\<close>

definition dest_Write :: "string \<Rightarrow> string \<Rightarrow> string" where
  "dest_Write dest p = (case Buffer_Write dest p of (n, err, d) \<Rightarrow> d)"

definition DumpState :: "'w Writer \<Rightarrow> string \<Rightarrow> 'w Writer \<times> string" where
  "DumpState w dest =
     (w, foldl dest_Write dest
           [binenc_Uint32 (word_of_int (bufsize w)),
            binenc_Uint32 (word_of_int (int (length (buffer w)))),
            buffer w,
            binenc_Uint32 (word_of_int (int (length (linebuf w)))),
            linebuf w,
            binenc_Bool (finished w),
            binenc_Uint32 (word_of_int (lineCount w)),
            binenc_Uint32 (word_of_int (savedLineCount w)),
            binenc_Uint32 (word_of_int (prevLineCount w)),
            binenc_Bool (worthFlushing w)])"

text \<open>
  \<open>RestoreState\<close> reads every field before it assigns any; each failed read panics.
  The result pairs the panic, if any, with the writer as the call leaves it.
\<close>

definition RestoreState :: "'w Writer \<Rightarrow> string \<Rightarrow> error option \<times> 'w Writer" where
  "RestoreState w src =
     (case bindec_Uint32 (bindec_New src) of (bufsz, ok, r1) \<Rightarrow>
      if \<not> ok then (Some (Panic ''Cannot restore bufsize''), w) else
     (case bindec_Uint32 r1 of (buflen, ok, r2) \<Rightarrow>
      if \<not> ok then (Some (Panic ''Cannot restore buffer length''), w) else
     (case bindec_Bytes r2 (uint buflen) of (buf, ok, r3) \<Rightarrow>
      if \<not> ok then (Some (Panic ''Cannot restore a buffer''), w) else
     (case bindec_Uint32 r3 of (linebuflen, ok, r4) \<Rightarrow>
      if \<not> ok then (Some (Panic ''Cannot restore line buffer length''), w) else
     (case bindec_Bytes r4 (uint linebuflen) of (lbuf, ok, r5) \<Rightarrow>
      if \<not> ok then (Some (Panic ''Cannot restore line buffer''), w) else
     (case bindec_Bool r5 of (fin, ok, r6) \<Rightarrow>
      if \<not> ok then (Some (Panic ''Cannot restore finished state''), w) else
     (case bindec_Uint32 r6 of (linecount, ok, r7) \<Rightarrow>
      if \<not> ok then (Some (Panic ''Cannot restore line count''), w) else
     (case bindec_Uint32 r7 of (savedlinecount, ok, r8) \<Rightarrow>
      if \<not> ok then (Some (Panic ''Cannot restore saved line count''), w) else
     (case bindec_Uint32 r8 of (prevlinecount, ok, r9) \<Rightarrow>
      if \<not> ok then (Some (Panic ''Cannot restore prev(ious) line count''), w) else
     (case bindec_Bool r9 of (worthflushing, ok, r10) \<Rightarrow>
      if \<not> ok then (Some (Panic ''Cannot restore worthflushing state''), w) else
      (None,
       w\<lparr>bufsize := uint bufsz,
         buffer := [] @ buf,
         linebuf := [] @ lbuf,
         finished := fin,
         lineCount := uint linecount,
         savedLineCount := uint savedlinecount,
         prevLineCount := uint prevlinecount,
         worthFlushing := worthflushing\<rparr>)))))))))))"

subsection \<open>Sequences of calls\<close>

datatype call = CallWrite string | CallFlush | CallFlushAll | CallWorthFlushing

datatype result = RWrite int "error option" | RFlush "error option" | RWorth bool

fun exec :: "'w Writer \<Rightarrow> call \<Rightarrow> result \<times> 'w Writer" where
  "exec w (CallWrite data) = (case Write w data of (n, err, w') \<Rightarrow> (RWrite n err, w'))"
| "exec w CallFlush = (case Flush w of (err, w') \<Rightarrow> (RFlush err, w'))"
| "exec w CallFlushAll = (case FlushAll w of (err, w') \<Rightarrow> (RFlush err, w'))"
| "exec w CallWorthFlushing = (case WorthFlushing w of (b, w') \<Rightarrow> (RWorth b, w'))"

fun execs :: "'w Writer \<Rightarrow> call list \<Rightarrow> result list \<times> 'w Writer" where
  "execs w [] = ([], w)"
| "execs w (c # cs) =
     (case exec w c of (r, w') \<Rightarrow> (case execs w' cs of (rs, w'') \<Rightarrow> (r # rs, w'')))"

fun succeeded :: "result \<Rightarrow> bool" where
  "succeeded (RWrite n err) = (err = None)"
| "succeeded (RFlush err) = (err = None)"
| "succeeded (RWorth b) = True"

fun submitted :: "call list \<Rightarrow> string" where
  "submitted [] = []"
| "submitted (CallWrite data # cs) = data @ submitted cs"
| "submitted (c # cs) = submitted cs"

text \<open>The states a writer goes through: a new writer, and any state a call leaves.\<close>

inductive reachable :: "'w Writer \<Rightarrow> bool" where
  fresh: "NewWriterSize W sz = Inr w \<Longrightarrow> reachable w"
| step: "reachable w \<Longrightarrow> exec w c = (r, w') \<Longrightarrow> reachable w'"

text \<open>What the underlying writer was handed, and the lines-only shape of a byte string.\<close>

definition handed :: "'w Writer \<Rightarrow> string" where
  "handed w = concat (seen (writer w))"

definition whole_lines :: "string \<Rightarrow> bool" where
  "whole_lines s = (s = [] \<or> last s = nl)"


section \<open>The file registry (package main, \<open>FileOp\<close>)\<close>

text \<open>
  The interface \<open>bufferer.Bufferer\<close> is declared outside the source files; the registry
  calls its \<open>Close\<close> and \<open>Logrotate\<close>. A bufferer is a state of any type with its two
  methods. A mutex is a flag, true while held; \<open>Lock\<close> on a held mutex does not return
  in a run with one thread, so an operation that reaches one has no result (\<open>None\<close>).
  The background flusher that \<open>NewFileOp\<close> starts runs beside the callers and is not
  part of the model.

  \<open>Buf\<close> holds pointers to its mutex and its bufferer, and the map holds the only
  \<open>Buf\<close> of a key, so the objects behind the pointers are kept in the map's entry: a
  call on \<open>buf.Lock\<close> or \<open>buf.Buf\<close> updates the entry. \<open>trace\<close> logs the calls that
  leave the registry; no code reads it.
\<close>

record 'b Bufferer =
  bstate :: 'b
  Close_method :: "'b \<Rightarrow> error option \<times> 'b"
  Logrotate_method :: "'b \<Rightarrow> string \<Rightarrow> error option \<times> 'b"

definition Bufferer_Close :: "'b Bufferer \<Rightarrow> error option \<times> 'b Bufferer" where
  "Bufferer_Close b =
     (case Close_method b (bstate b) of (err, s) \<Rightarrow> (err, b\<lparr>bstate := s\<rparr>))"

definition Bufferer_Logrotate :: "'b Bufferer \<Rightarrow> string \<Rightarrow> error option \<times> 'b Bufferer" where
  "Bufferer_Logrotate b newpath =
     (case Logrotate_method b (bstate b) newpath of (err, s) \<Rightarrow> (err, b\<lparr>bstate := s\<rparr>))"

record 'b Buf =
  Name :: string
  Lock :: bool
  Buf :: "'b Bufferer"

datatype event =
    FactoryCall string
  | LockCall string | UnlockCall string
  | CloseCall string "error option"
  | LogrotateCall string string "error option"

record ('b, 'f) FileOp =
  items :: "string \<rightharpoonup> 'b Buf"
  itemsLock :: bool
  factory :: "'f \<Rightarrow> string \<Rightarrow> (error + 'b Bufferer) \<times> 'f"
  fstate :: 'f       \<comment> \<open>what the factory closure works on\<close>
  trace :: "event list"

definition GetFile ::
  "('b, 'f) FileOp \<Rightarrow> string \<Rightarrow> ((error + 'b Buf) \<times> ('b, 'f) FileOp) option" where
  "GetFile f name =
     (if itemsLock f then None
      else
        (let f1 = f\<lparr>itemsLock := True\<rparr> in
         case items f1 name of
           Some buf \<Rightarrow> Some (Inr buf, f1\<lparr>itemsLock := False\<rparr>)
         | None \<Rightarrow>
             (case factory f1 (fstate f1) name of
                (r, s) \<Rightarrow>
                  (let f2 = f1\<lparr>fstate := s, trace := trace f1 @ [FactoryCall name]\<rparr> in
                   case r of
                     Inl err \<Rightarrow> Some (Inl err, f2\<lparr>itemsLock := False\<rparr>)
                   | Inr b \<Rightarrow>
                       (let buf = \<lparr>Name = name, Lock = False, Buf = b\<rparr>;
                            f3 = f2\<lparr>items := (items f2)(name \<mapsto> buf)\<rparr>
                        in Some (Inr buf, f3\<lparr>itemsLock := False\<rparr>))))))"

text \<open>
  \<open>Logrotate\<close> has the named result \<open>err\<close>, nil at entry. The \<open>err\<close> of
  \<open>if err := buf.Buf.Close(); err != nil\<close> is a variable of the \<open>if\<close> statement
  alone (\<open>cerr\<close> below); \<open>goto exit\<close> leaves the named result as it was, and
  \<open>return err\<close> returns the named result.
\<close>

definition Logrotate ::
  "('b, 'f) FileOp \<Rightarrow> string \<Rightarrow> string \<Rightarrow> (error option \<times> ('b, 'f) FileOp) option" where
  "Logrotate f name newpath =
     (if itemsLock f then None
      else
        (let f1 = f\<lparr>itemsLock := True\<rparr>;
             found = items f1 name;
             f2 = f1\<lparr>itemsLock := False\<rparr>
         in case found of
              None \<Rightarrow> Some (Some (FileNotFound name), f2)
            | Some buf \<Rightarrow>
                if Lock buf then None
                else
                  (let err = None;
                       t1 = trace f2 @ [LockCall (Name buf)]
                   in case Bufferer_Close (Buf buf) of
                        (cerr, b1) \<Rightarrow>
                          (let t2 = t1 @ [CloseCall (Name buf) cerr] in
                           if cerr \<noteq> None then
                             Some (err,
                                   f2\<lparr>items := (items f2)(name \<mapsto> buf\<lparr>Lock := False, Buf := b1\<rparr>),
                                      trace := t2 @ [UnlockCall (Name buf)]\<rparr>)
                           else
                             (case Bufferer_Logrotate b1 newpath of
                                (lerr, b2) \<Rightarrow>
                                  (let err = lerr;
                                       t3 = t2 @ [LogrotateCall (Name buf) newpath lerr]
                                   in Some (err,
                                            f2\<lparr>items := (items f2)(name \<mapsto> buf\<lparr>Lock := False, Buf := b2\<rparr>),
                                               trace := t3 @ [UnlockCall (Name buf)]\<rparr>)))))))"

section \<open>Notions used in the statements\<close>

text \<open>
  The line that \<open>Write\<close> commits when the chunk \<open>l\<close> ends a line (the staged bytes go
  in front of it), and whether the committed buffer has no room for it.
\<close>

definition full_line :: "'w Writer \<Rightarrow> string \<Rightarrow> string" where
  "full_line w l = (if finished w then l else linebuf w @ l)"

definition overflows :: "'w Writer \<Rightarrow> string \<Rightarrow> bool" where
  "overflows w l = (int (length (buffer w)) + int (length (full_line w l)) > bufsize w)"

text \<open>
  The shape of the two buffers between calls: the committed buffer ends at a line's
  end, the staging buffer holds no newline, and it is empty when \<open>finished\<close> is set.
\<close>

definition line_state :: "'w Writer \<Rightarrow> bool" where
  "line_state w =
     (whole_lines (buffer w) \<and> nl \<notin> set (linebuf w) \<and> (finished w \<longrightarrow> linebuf w = []))"

text \<open>An underlying writer that takes every byte it is handed.\<close>

definition accepting :: "unit iowriter" where
  "accepting = \<lparr>wstate = (), wfun = (\<lambda>s p. (length p, None, s)), seen = []\<rparr>"

definition new_writer :: "'w iowriter \<Rightarrow> int \<Rightarrow> 'w Writer" where
  "new_writer W sz =
     \<lparr>bufsize = sz, writer = W, buffer = [], linebuf = [], finished = True,
      lineCount = 0, savedLineCount = 0, prevLineCount = 0, worthFlushing = True\<rparr>"

text \<open>
  The checkpoint format of the spec, for the fields of a writer: \<open>u32 bufsize\<close>,
  \<open>u32 bufLen\<close>, the committed bytes, \<open>u32 lineBufLen\<close>, the staged bytes, \<open>u8
  finished\<close>, \<open>u32 lineCount\<close>, \<open>u32 savedLineCount\<close>, \<open>u32 prevLineCount\<close>, \<open>u8
  worthFlushing\<close>; and the writers every field of which a \<open>u32\<close> can hold.
\<close>

definition checkpoint :: "'w Writer \<Rightarrow> string" where
  "checkpoint w =
     binenc_Uint32 (word_of_int (bufsize w)) @
     binenc_Uint32 (word_of_int (int (length (buffer w)))) @ buffer w @
     binenc_Uint32 (word_of_int (int (length (linebuf w)))) @ linebuf w @
     binenc_Bool (finished w) @
     binenc_Uint32 (word_of_int (lineCount w)) @
     binenc_Uint32 (word_of_int (savedLineCount w)) @
     binenc_Uint32 (word_of_int (prevLineCount w)) @
     binenc_Bool (worthFlushing w)"

definition fits_u32 :: "'w Writer \<Rightarrow> bool" where
  "fits_u32 w =
     (0 \<le> bufsize w \<and> bufsize w < 4294967296 \<and>
      int (length (buffer w)) < 4294967296 \<and> int (length (linebuf w)) < 4294967296 \<and>
      0 \<le> lineCount w \<and> lineCount w < 4294967296 \<and>
      0 \<le> savedLineCount w \<and> savedLineCount w < 4294967296 \<and>
      0 \<le> prevLineCount w \<and> prevLineCount w < 4294967296)"

text \<open>
  The number of bytes the checkpoint at the head of \<open>src\<close> takes, by the format: 26
  bytes of fixed-size fields and the two byte strings, whose lengths stand at offset 4
  and right after the committed bytes. When \<open>src\<close> ends before a length field, the
  number is what it takes to reach the end of that field. An input is too short when
  it has fewer bytes than that.
\<close>

definition checkpoint_needs :: "string \<Rightarrow> nat" where
  "checkpoint_needs src =
     (if length src < 8 then 8
      else
        (let buflen = unat (le_uint32 (drop 4 src)) in
         if length src < 12 + buflen then 12 + buflen
         else
           (let linebuflen = unat (le_uint32 (drop (8 + buflen) src))
            in 26 + buflen + linebuflen)))"

definition too_short :: "string \<Rightarrow> bool" where
  "too_short src = (length src < checkpoint_needs src)"

text \<open>The state of a writer of capacity 1 MiB after \<open>Write("hello\nwor")\<close>.\<close>

definition hello_state :: "unit Writer" where
  "hello_state =
     (new_writer accepting 1048576)\<lparr>buffer := ''hello\<newline>'', linebuf := ''wor'', finished := False,
                                     lineCount := 1\<rparr>"

text \<open>
  An underlying writer over a file that fails its first call, taking no byte, and
  takes every byte from then on; its state is whether the failure is still to come,
  and the bytes the file holds.
\<close>

definition failing_once :: "(bool \<times> string) iowriter" where
  "failing_once =
     \<lparr>wstate = (True, []),
      wfun = (\<lambda>(pending, file) p.
                if pending then (0, Some (Failure ''disk full''), (False, file))
                else (length p, None, (False, file @ p))),
      seen = []\<rparr>"

text \<open>
  The chunks of \<open>data\<close> that end a line, each up to and with its newline, in order;
  and the lines a \<open>Write\<close> of \<open>data\<close> has to commit: the staged bytes go in front
  of the first.
\<close>

fun complete_lines :: "string \<Rightarrow> string list" where
  "complete_lines [] = []"
| "complete_lines (c # cs) =
     (if c = nl then [c] # complete_lines cs
      else (case complete_lines cs of [] \<Rightarrow> [] | l # ls \<Rightarrow> (c # l) # ls))"

definition lines_to_commit :: "'w Writer \<Rightarrow> string \<Rightarrow> string list" where
  "lines_to_commit w data =
     (case complete_lines data of [] \<Rightarrow> [] | l # ls \<Rightarrow> full_line w l # ls)"

text \<open>
  The capacity rule as the spec words it, on what can be observed of a writer: the
  chunks handed to the underlying writer, the committed bytes and the hint
  \<open>worthFlushing\<close>. For a line \<open>L\<close> to commit under capacity \<open>C\<close>: when the
  committed length plus the length of \<open>L\<close> exceeds \<open>C\<close>, the committed bytes are
  flushed (one chunk handed down, unless there are none) and the hint is cleared
  (\<open>rule_make_room\<close>); then \<open>L\<close> is appended whole (\<open>rule_append\<close>).
  \<open>rule_rooms\<close> lists what the rule finds right before each append.
\<close>

definition view :: "'w Writer \<Rightarrow> string list \<times> string \<times> bool" where
  "view w = (seen (writer w), buffer w, worthFlushing w)"

fun rule_make_room ::
  "int \<Rightarrow> string list \<times> string \<times> bool \<Rightarrow> string \<Rightarrow> string list \<times> string \<times> bool" where
  "rule_make_room C (out, com, hint) L =
     (if int (length com) + int (length L) > C
      then ((if com = [] then out else out @ [com]), [], False)
      else (out, com, hint))"

fun rule_append :: "string list \<times> string \<times> bool \<Rightarrow> string \<Rightarrow> string list \<times> string \<times> bool" where
  "rule_append (out, com, hint) L = (out, com @ L, hint)"

definition rule_commit ::
  "int \<Rightarrow> string list \<times> string \<times> bool \<Rightarrow> string \<Rightarrow> string list \<times> string \<times> bool" where
  "rule_commit C st L = rule_append (rule_make_room C st L) L"

fun rule_rooms ::
  "int \<Rightarrow> string list \<times> string \<times> bool \<Rightarrow> string list \<Rightarrow> (string list \<times> string \<times> bool) list" where
  "rule_rooms C st [] = []"
| "rule_rooms C st (L # ls) = rule_make_room C st L # rule_rooms C (rule_commit C st L) ls"

text \<open>
  A registry for the examples: one entry, \<open>a.log\<close>, whose bufferer fails to close; a
  factory that fails for the key \<open>bad\<close> and makes a working bufferer for any other
  key, counting its calls.
\<close>

definition plain_bufferer :: "unit Bufferer" where
  "plain_bufferer =
     \<lparr>bstate = (), Close_method = (\<lambda>s. (None, s)), Logrotate_method = (\<lambda>s p. (None, s))\<rparr>"

definition stuck_bufferer :: "unit Bufferer" where
  "stuck_bufferer =
     \<lparr>bstate = (), Close_method = (\<lambda>s. (Some (Failure ''close failed''), s)),
      Logrotate_method = (\<lambda>s p. (None, s))\<rparr>"

definition example_factory :: "nat \<Rightarrow> string \<Rightarrow> (error + unit Bufferer) \<times> nat" where
  "example_factory s name =
     (if name = ''bad'' then (Inl (Failure ''open failed''), s + 1)
      else (Inr plain_bufferer, s + 1))"

definition example_registry :: "(unit, nat) FileOp" where
  "example_registry =
     \<lparr>items = [''a.log'' \<mapsto> \<lparr>Name = ''a.log'', Lock = False, Buf = stuck_bufferer\<rparr>],
      itemsLock = False, factory = example_factory, fstate = 0, trace = []\<rparr>"

section \<open>Properties of the line-integrity writer\<close>

subsection \<open>Finding the newline\<close>

lemma IndexByte_neg_iff: "IndexByte s c < 0 \<longleftrightarrow> c \<notin> set s"
  by (induction s) (auto simp: Let_def)

lemma IndexByte_bounds: "c \<in> set s \<Longrightarrow> 0 \<le> IndexByte s c \<and> IndexByte s c < int (length s)"
  by (induction s) (auto simp: Let_def IndexByte_neg_iff)

lemma take_IndexByte:
  "c \<in> set s \<Longrightarrow> \<exists>pre. take (nat (IndexByte s c + 1)) s = pre @ [c] \<and> c \<notin> set pre"
proof (induction s)
  case Nil
  then show ?case by simp
next
  case (Cons x xs)
  show ?case
  proof (cases "x = c")
    case True
    then show ?thesis by simp
  next
    case False
    with Cons.prems have in_xs: "c \<in> set xs" by simp
    then obtain pre where pre: "take (nat (IndexByte xs c + 1)) xs = pre @ [c]" "c \<notin> set pre"
      using Cons.IH by blast
    from in_xs have nonneg: "0 \<le> IndexByte xs c" by (simp add: IndexByte_bounds)
    then have "nat (IndexByte xs c + 1 + 1) = Suc (nat (IndexByte xs c + 1))" by simp
    with False nonneg pre have "take (nat (IndexByte (x # xs) c + 1)) (x # xs) = (x # pre) @ [c]"
      by (simp add: Let_def)
    moreover from False pre(2) have "c \<notin> set (x # pre)" by auto
    ultimately show ?thesis by blast
  qed
qed

lemma NewWriterSize_new: "0 \<le> sz \<Longrightarrow> NewWriterSize W sz = Inr (new_writer W sz)"
  by (simp add: NewWriterSize_def new_writer_def)

subsection \<open>What a flush and a committed line do\<close>

lemma Flush_ok:
  assumes "Flush w = (None, w')"
  shows "buffer w' = []" and "linebuf w' = linebuf w" and "finished w' = finished w"
    and "bufsize w' = bufsize w" and "lineCount w' = lineCount w"
    and "savedLineCount w' = lineCount w" and "prevLineCount w' = prevLineCount w"
    and "worthFlushing w' = worthFlushing w" and "handed w' = handed w @ buffer w"
  using assms
  by (auto simp: Flush_def Buffer_WriteTo_def io_Write_def Let_def handed_def
           split: if_splits prod.splits)

lemma Write_line_ok:
  assumes "Write_line w l = (None, w')"
  shows "buffer w' = (if overflows w l then [] else buffer w) @ full_line w l \<and>
         linebuf w' = (if finished w then linebuf w else []) \<and>
         handed w' = handed w @ (if overflows w l then buffer w else []) \<and>
         finished w' = finished w \<and> bufsize w' = bufsize w \<and> lineCount w' = lineCount w \<and>
         prevLineCount w' = prevLineCount w \<and>
         savedLineCount w' = (if overflows w l then lineCount w else savedLineCount w) \<and>
         worthFlushing w' = (if overflows w l then False else worthFlushing w)"
proof -
  define w1 where "w1 = (if finished w then w else w\<lparr>linebuf := []\<rparr>)"
  have stage: "Write_stage w l = (None, full_line w l, w1)"
    by (simp add: Write_stage_def Buffer_Write_def full_line_def w1_def)
  have ov: "(int (length (buffer w1)) + int (length (full_line w l)) > bufsize w1) = overflows w l"
    by (simp add: overflows_def w1_def)
  show ?thesis
  proof (cases "overflows w l")
    case True
    with assms stage ov obtain w2 where
      fl: "Flush (w1\<lparr>worthFlushing := False\<rparr>) = (None, w2)" and
      ap: "Write_append w2 (full_line w l) = (None, w')"
      by (auto simp: Write_line_def Write_make_room_def split: prod.splits option.splits)
    from Flush_ok[OF fl] ap True show ?thesis
      by (auto simp: Write_append_def Buffer_Write_def w1_def handed_def)
  next
    case False
    with assms stage ov have ap: "Write_append w1 (full_line w l) = (None, w')"
      by (auto simp: Write_line_def Write_make_room_def split: prod.splits option.splits)
    with False show ?thesis
      by (auto simp: Write_append_def Buffer_Write_def w1_def handed_def)
  qed
qed


lemma Flush_counts:
  "Flush w = (e, w') \<Longrightarrow>
     lineCount w' = lineCount w \<and> bufsize w' = bufsize w \<and>
     (savedLineCount w' = savedLineCount w \<or> savedLineCount w' = lineCount w)"
  by (auto simp: Flush_def Let_def split: if_splits prod.splits)

lemma Write_line_counts:
  "Write_line w l = (e, w') \<Longrightarrow>
     lineCount w' = lineCount w \<and> bufsize w' = bufsize w \<and>
     (savedLineCount w' = savedLineCount w \<or> savedLineCount w' = lineCount w)"
  by (auto simp: Write_line_def Write_stage_def Write_make_room_def Write_append_def Buffer_Write_def
           split: if_splits prod.splits option.splits dest!: Flush_counts)

lemma Write_loop_counts:
  "Write_loop w data nn = (n, e, w') \<Longrightarrow> savedLineCount w \<le> lineCount w \<Longrightarrow>
     savedLineCount w' \<le> lineCount w' \<and> bufsize w' = bufsize w"
proof (induction w data nn rule: Write_loop.induct)
  case (1 w data nn)
  show ?case
  proof (cases "0 < length data \<and> \<not> IndexByte data nl < 0")
    case False
    with "1.prems" show ?thesis
      by (subst (asm) Write_loop.simps) (auto simp: Buffer_Write_def split: if_splits)
  next
    case True
    obtain e1 w1 where wl: "Write_line w (take (nat (IndexByte data nl + 1)) data) = (e1, w1)"
      by (cases "Write_line w (take (nat (IndexByte data nl + 1)) data)") auto
    from Write_line_counts[OF wl] "1.prems"(2)
    have c1: "savedLineCount w1 \<le> lineCount w1" "bufsize w1 = bufsize w" by auto
    show ?thesis
    proof (cases e1)
      case (Some err)
      with True wl "1.prems"(1) have "w' = w1"
        by (subst (asm) Write_loop.simps) simp
      with c1 show ?thesis by simp
    next
      case None
      let ?w2 = "w1\<lparr>lineCount := lineCount w1 + 1, finished := True\<rparr>"
      from None True wl "1.prems"(1)
      have rec: "Write_loop ?w2 (drop (nat (IndexByte data nl + 1)) data)
                   (nn + (IndexByte data nl + 1)) = (n, e, w')"
        by (subst (asm) Write_loop.simps) simp
      from c1 have "savedLineCount ?w2 \<le> lineCount ?w2" by simp
      from "1.IH"[OF _ _ _ _ rec this] True wl None c1 show ?thesis by simp
    qed
  qed
qed


lemma whole_lines_append: "whole_lines a \<Longrightarrow> whole_lines b \<Longrightarrow> whole_lines (a @ b)"
  by (cases b rule: rev_cases) (auto simp: whole_lines_def)

lemma whole_lines_snoc: "whole_lines (a @ pre @ [nl])"
  by (simp add: whole_lines_def)

lemma Write_line_line_state:
  assumes wl: "Write_line w (pre @ [nl]) = (None, w1)" and ls: "line_state w"
  shows "line_state (w1\<lparr>lineCount := lineCount w1 + 1, finished := True\<rparr>)"
    and "linebuf w1 = []"
    and "handed w1 @ buffer w1 = handed w @ buffer w @ linebuf w @ pre @ [nl]"
    and "\<exists>x. handed w1 = handed w @ x \<and> whole_lines x"
proof -
  note f = Write_line_ok[OF wl]
  from f ls show lb: "linebuf w1 = []" by (auto simp: line_state_def)
  from f have "whole_lines (buffer w1)"
    by (auto simp: full_line_def whole_lines_def)
  with lb show "line_state (w1\<lparr>lineCount := lineCount w1 + 1, finished := True\<rparr>)"
    by (simp add: line_state_def)
  from f ls show "handed w1 @ buffer w1 = handed w @ buffer w @ linebuf w @ pre @ [nl]"
    by (auto simp: full_line_def line_state_def)
  from f ls show "\<exists>x. handed w1 = handed w @ x \<and> whole_lines x"
    by (auto simp: line_state_def whole_lines_def)
qed

lemma Write_loop_ok:
  "Write_loop w data nn = (n, None, w') \<Longrightarrow> line_state w \<Longrightarrow>
     line_state w' \<and>
     handed w' @ buffer w' @ linebuf w' = handed w @ buffer w @ linebuf w @ data \<and>
     (\<exists>x. handed w' = handed w @ x \<and> whole_lines x) \<and>
     n = nn + int (length data)"
proof (induction w data nn rule: Write_loop.induct)
  case (1 w data nn)
  show ?case
  proof (cases "0 < length data \<and> \<not> IndexByte data nl < 0")
    case False
    with "1.prems" show ?thesis
      by (subst (asm) Write_loop.simps)
         (auto simp: Buffer_Write_def line_state_def IndexByte_neg_iff whole_lines_def
               handed_def split: if_splits)
  next
    case True
    let ?k = "nat (IndexByte data nl + 1)"
    from True have mem: "nl \<in> set data" by (simp add: IndexByte_neg_iff)
    then obtain pre where pre: "take ?k data = pre @ [nl]" "nl \<notin> set pre"
      using take_IndexByte by blast
    from mem have k: "?k \<le> length data" "int ?k = IndexByte data nl + 1"
      using IndexByte_bounds[OF mem] by auto
    obtain e1 w1 where wl: "Write_line w (take ?k data) = (e1, w1)"
      by (cases "Write_line w (take ?k data)") auto
    have e1: "e1 = None"
    proof (cases e1)
      case (Some err)
      with True wl "1.prems"(1) show ?thesis
        by (subst (asm) Write_loop.simps) simp
    qed simp
    let ?w2 = "w1\<lparr>lineCount := lineCount w1 + 1, finished := True\<rparr>"
    from e1 True wl "1.prems"(1)
    have rec: "Write_loop ?w2 (drop ?k data) (nn + (IndexByte data nl + 1)) = (n, None, w')"
      by (subst (asm) Write_loop.simps) simp
    from wl e1 pre have wl': "Write_line w (pre @ [nl]) = (None, w1)" by simp
    note st = Write_line_line_state[OF wl' "1.prems"(2)]
    from "1.IH"[OF _ _ _ _ rec st(1)] True wl e1
    have ih: "line_state w'"
      "handed w' @ buffer w' @ linebuf w' = handed ?w2 @ buffer ?w2 @ linebuf ?w2 @ drop ?k data"
      "\<exists>x. handed w' = handed ?w2 @ x \<and> whole_lines x"
      "n = nn + (IndexByte data nl + 1) + int (length (drop ?k data))"
      by simp_all
    have h2: "handed ?w2 = handed w1" by (simp add: handed_def)
    have "handed w' @ buffer w' @ linebuf w' = (handed w1 @ buffer w1) @ drop ?k data"
      using ih(2) st(2) h2 by simp
    also have "\<dots> = handed w @ buffer w @ linebuf w @ (take ?k data @ drop ?k data)"
      using st(3) pre(1) by simp
    finally have total: "handed w' @ buffer w' @ linebuf w' = handed w @ buffer w @ linebuf w @ data"
      by simp
    from st(4) ih(3) h2 have "\<exists>x. handed w' = handed w @ x \<and> whole_lines x"
      by (metis append.assoc whole_lines_append)
    moreover from ih(4) k have "n = nn + int (length data)" by simp
    ultimately show ?thesis using ih(1) total by simp
  qed
qed


subsection \<open>The count that \<open>Write\<close> returns\<close>

lemma Write_loop_count:
  "Write_loop w data nn = (n, None, w') \<Longrightarrow> n = nn + int (length data)"
proof (induction w data nn rule: Write_loop.induct)
  case (1 w data nn)
  show ?case
  proof (cases "0 < length data \<and> \<not> IndexByte data nl < 0")
    case False
    with "1.prems" show ?thesis
      by (subst (asm) Write_loop.simps) (auto simp: Buffer_Write_def split: if_splits)
  next
    case True
    let ?k = "nat (IndexByte data nl + 1)"
    from True have mem: "nl \<in> set data" by (simp add: IndexByte_neg_iff)
    from IndexByte_bounds[OF mem] have k: "int (length (drop ?k data)) = int (length data) - (IndexByte data nl + 1)"
      by auto
    obtain e1 w1 where wl: "Write_line w (take ?k data) = (e1, w1)"
      by (cases "Write_line w (take ?k data)") auto
    have e1: "e1 = None"
    proof (cases e1)
      case (Some err)
      with True wl "1.prems"(1) show ?thesis
        by (subst (asm) Write_loop.simps) simp
    qed simp
    let ?w2 = "w1\<lparr>lineCount := lineCount w1 + 1, finished := True\<rparr>"
    from e1 True wl "1.prems"(1)
    have rec: "Write_loop ?w2 (drop ?k data) (nn + (IndexByte data nl + 1)) = (n, None, w')"
      by (subst (asm) Write_loop.simps) simp
    from "1.IH"[OF _ _ _ _ rec] True wl e1 k show ?thesis by simp
  qed
qed

lemma Write_returns_length: "Write w data = (n, None, w') \<Longrightarrow> n = int (length data)"
  using Write_loop_count[of w data 0 n w'] by (simp add: Write_def)

text \<open>
  Claim C1. The claim: a successful \<open>Write(data)\<close> returns the number of bytes closed by
  a newline in this call (so bytes staged earlier are counted when their newline
  comes), and does not count the bytes after the last newline of \<open>data\<close>; on a new
  writer \<open>Write("1\n2\n3\n456")\<close> returns 6, as the comment above the type \<open>Writer\<close>
  says too. The code: the branch for a chunk with no newline adds the number of staged
  bytes to the result (\<open>nn += n\<close>), so the call returns 9, the length of \<open>data\<close>,
  with the three lines committed and \<open>456\<close> staged; a following \<open>Write("7\n")\<close>
  returns 2, though it closes the line \<open>4567\n\<close>.
\<close>

theorem Write_docstring_example:
  "NewWriterSize accepting 1048576 = Inr (new_writer accepting 1048576) \<and>
   Write (new_writer accepting 1048576) ''1\<newline>2\<newline>3\<newline>456'' =
     (9, None, (new_writer accepting 1048576)
                 \<lparr>buffer := ''1\<newline>2\<newline>3\<newline>'', linebuf := ''456'', finished := False,
                  lineCount := 3\<rparr>) \<and>
   Write ((new_writer accepting 1048576)
            \<lparr>buffer := ''1\<newline>2\<newline>3\<newline>'', linebuf := ''456'', finished := False,
             lineCount := 3\<rparr>) ''7\<newline>'' =
     (2, None, (new_writer accepting 1048576)
                 \<lparr>buffer := ''1\<newline>2\<newline>3\<newline>4567\<newline>'', lineCount := 4\<rparr>)"
  by (simp add: NewWriterSize_def new_writer_def Write_def Write_loop.simps Write_line_def
        Write_stage_def Write_make_room_def Write_append_def Buffer_Write_def nl_def)

subsection \<open>Flushing twice\<close>

text \<open>
  Claim C7. When \<open>Flush\<close> succeeds, a second \<open>Flush\<close> with no call in between
  succeeds and leaves the writer as it found it: the underlying writer is not called,
  so the bytes it has received are the same.
\<close>

theorem Flush_idempotent:
  assumes "Flush w = (None, w1)"
  shows "\<exists>w2. Flush w1 = (None, w2) \<and> seen (writer w2) = seen (writer w1) \<and>
              writer w2 = writer w1 \<and> w2 = w1"
  using assms
  by (auto simp: Flush_def Buffer_WriteTo_def io_Write_def Let_def split: if_splits prod.splits)

text \<open>
  After \<open>Write("a\n")\<close> on a new writer, the first \<open>Flush\<close> hands \<open>a\n\<close> to the
  underlying writer and the second hands it nothing.
\<close>

theorem Flush_idempotent_witness:
  "Write (new_writer accepting 16) ''a\<newline>'' =
     (2, None, (new_writer accepting 16)\<lparr>buffer := ''a\<newline>'', lineCount := 1\<rparr>) \<and>
   Flush ((new_writer accepting 16)\<lparr>buffer := ''a\<newline>'', lineCount := 1\<rparr>) =
     (None, (new_writer accepting 16)
              \<lparr>writer := accepting\<lparr>seen := [''a\<newline>'']\<rparr>, lineCount := 1, savedLineCount := 1\<rparr>) \<and>
   Flush ((new_writer accepting 16)
              \<lparr>writer := accepting\<lparr>seen := [''a\<newline>'']\<rparr>, lineCount := 1, savedLineCount := 1\<rparr>) =
     (None, (new_writer accepting 16)
              \<lparr>writer := accepting\<lparr>seen := [''a\<newline>'']\<rparr>, lineCount := 1, savedLineCount := 1\<rparr>)"
proof -
  have wr: "Write (new_writer accepting 16) ''a\<newline>'' =
     (2, None, (new_writer accepting 16)\<lparr>buffer := ''a\<newline>'', lineCount := 1\<rparr>)"
    by (simp add: new_writer_def Write_def Write_loop.simps Write_line_def
        Write_stage_def Write_make_room_def Write_append_def Buffer_Write_def nl_def)
  have first: "Flush ((new_writer accepting 16)\<lparr>buffer := ''a\<newline>'', lineCount := 1\<rparr>) =
     (None, (new_writer accepting 16)
              \<lparr>writer := accepting\<lparr>seen := [''a\<newline>'']\<rparr>, lineCount := 1, savedLineCount := 1\<rparr>)"
    by (simp add: Flush_def Buffer_WriteTo_def io_Write_def new_writer_def accepting_def)
  from wr first Flush_idempotent[OF first] show ?thesis by simp
qed


subsection \<open>Line integrity\<close>

lemma exec_ok:
  assumes "exec w c = (r, w')" and "succeeded r" and "c \<noteq> CallFlushAll" and "line_state w"
  shows "line_state w' \<and>
         handed w' @ buffer w' @ linebuf w' = handed w @ buffer w @ linebuf w @ submitted [c] \<and>
         (\<exists>x. handed w' = handed w @ x \<and> whole_lines x)"
proof (cases c)
  case (CallWrite data)
  with assms(1,2) obtain n where "Write_loop w data 0 = (n, None, w')"
    by (auto simp: Write_def split: prod.splits)
  from Write_loop_ok[OF this assms(4)] CallWrite show ?thesis by simp
next
  case CallFlush
  with assms(1,2) have fl: "Flush w = (None, w')" by (auto split: prod.splits)
  from Flush_ok[OF fl] assms(4) CallFlush show ?thesis
    by (auto simp: line_state_def whole_lines_def)
next
  case CallFlushAll
  with assms(3) show ?thesis by simp
next
  case CallWorthFlushing
  with assms(1,4) show ?thesis
    by (auto simp: WorthFlushing_def Let_def line_state_def handed_def whole_lines_def)
qed

lemma execs_ok:
  "execs w cs = (rs, w') \<Longrightarrow> list_all succeeded rs \<Longrightarrow> CallFlushAll \<notin> set cs \<Longrightarrow>
   line_state w \<Longrightarrow>
     line_state w' \<and>
     handed w' @ buffer w' @ linebuf w' = handed w @ buffer w @ linebuf w @ submitted cs \<and>
     (\<exists>x. handed w' = handed w @ x \<and> whole_lines x)"
proof (induction cs arbitrary: w rs)
  case Nil
  then show ?case by (auto simp: whole_lines_def)
next
  case (Cons c cs)
  obtain r w1 where e: "exec w c = (r, w1)" by (cases "exec w c") auto
  obtain rs1 where es: "execs w1 cs = (rs1, w')" and rs: "rs = r # rs1"
    using Cons.prems(1) e by (auto split: prod.splits)
  from Cons.prems(2) rs have ok: "succeeded r" "list_all succeeded rs1" by simp_all
  from Cons.prems(3) have nfa: "c \<noteq> CallFlushAll" "CallFlushAll \<notin> set cs" by auto
  note one = exec_ok[OF e ok(1) nfa(1) Cons.prems(4)]
  note rest = Cons.IH[OF es ok(2) nfa(2) conjunct1[OF one]]
  have sub: "submitted (c # cs) = submitted [c] @ submitted cs"
    by (cases c) simp_all
  from one rest have "handed w' @ buffer w' @ linebuf w'
      = handed w @ buffer w @ linebuf w @ submitted (c # cs)"
    by (simp add: sub)
  moreover from one rest have "\<exists>x. handed w' = handed w @ x \<and> whole_lines x"
    by (metis append.assoc whole_lines_append)
  ultimately show ?case using rest by simp
qed

text \<open>
  Line integrity of the runs in which no call fails. Take a new writer over the
  underlying writer \<open>W\<close>, and any sequence of \<open>Write\<close>, \<open>Flush\<close> and
  \<open>WorthFlushing\<close> calls (no \<open>FlushAll\<close>) that all return without error; let \<open>B\<close>
  be the bytes submitted by its \<open>Write\<close>s. What the underlying writer has been handed
  since is a prefix \<open>out\<close> of \<open>B\<close> that is empty or ends with a newline; the rest of
  \<open>B\<close> is the committed buffer followed by the staging buffer; the committed buffer
  is empty or ends with a newline and the staging buffer holds no newline.
\<close>

lemma line_integrity_of_successful_runs:
  assumes "NewWriterSize W C = Inr w0"
    and "execs w0 cs = (rs, w)"
    and "list_all succeeded rs"
    and "CallFlushAll \<notin> set cs"
  shows "\<exists>out. handed w = concat (seen W) @ out \<and>
               submitted cs = out @ buffer w @ linebuf w \<and>
               whole_lines out \<and> whole_lines (buffer w) \<and> nl \<notin> set (linebuf w)"
proof -
  from assms(1) have w0: "buffer w0 = []" "linebuf w0 = []" "finished w0" "handed w0 = concat (seen W)"
    by (auto simp: NewWriterSize_def handed_def split: if_splits)
  then have "line_state w0" by (simp add: line_state_def whole_lines_def)
  from execs_ok[OF assms(2,3,4) this] w0 show ?thesis
    by (auto simp: line_state_def)
qed

text \<open>
  Capacity 4, \<open>Write("ab\ncd")\<close> then \<open>Write("e\nf")\<close>: the second call flushes
  \<open>ab\n\<close> to make room for \<open>cde\n\<close>, and \<open>f\<close> is staged.
\<close>

lemma line_integrity_example:
  "NewWriterSize accepting 4 = Inr (new_writer accepting 4) \<and>
   execs (new_writer accepting 4) [CallWrite ''ab\<newline>cd'', CallWrite ''e\<newline>f''] =
     ([RWrite 5 None, RWrite 3 None],
      (new_writer accepting 4)
        \<lparr>writer := accepting\<lparr>seen := [''ab\<newline>'']\<rparr>, buffer := ''cde\<newline>'', linebuf := ''f'',
         finished := False, lineCount := 2, savedLineCount := 1, worthFlushing := False\<rparr>) \<and>
   (\<exists>out. ''ab\<newline>'' = concat (seen accepting) @ out \<and>
          ''ab\<newline>cde\<newline>f'' = out @ ''cde\<newline>'' @ ''f'' \<and>
          whole_lines out \<and> whole_lines ''cde\<newline>'' \<and> nl \<notin> set ''f'')"
proof -
  have new: "NewWriterSize accepting 4 = Inr (new_writer accepting 4)"
    by (simp add: NewWriterSize_new)
  have run: "execs (new_writer accepting 4) [CallWrite ''ab\<newline>cd'', CallWrite ''e\<newline>f''] =
     ([RWrite 5 None, RWrite 3 None],
      (new_writer accepting 4)
        \<lparr>writer := accepting\<lparr>seen := [''ab\<newline>'']\<rparr>, buffer := ''cde\<newline>'', linebuf := ''f'',
         finished := False, lineCount := 2, savedLineCount := 1, worthFlushing := False\<rparr>)"
    by (simp add: new_writer_def accepting_def Write_def Write_loop.simps Write_line_def
        Write_stage_def Write_make_room_def Write_append_def Buffer_Write_def nl_def
        Flush_def Buffer_WriteTo_def io_Write_def)
  have ok: "list_all succeeded [RWrite 5 None, RWrite 3 None]" by simp
  have nfa: "CallFlushAll \<notin> set [CallWrite ''ab\<newline>cd'', CallWrite ''e\<newline>f'']" by simp
  from line_integrity_of_successful_runs[OF new run ok nfa] new run show ?thesis
    by (simp add: handed_def)
qed

text \<open>
  Claim C3. The claim: for every sequence of \<open>Write\<close> calls that submit the bytes
  \<open>B\<close>, what the underlying writer receives is a prefix of \<open>B\<close> made of whole lines,
  and the writer holds the rest of \<open>B\<close>. The code: \<open>Write\<close> moves the staged bytes
  out of \<open>linebuf\<close> and resets it before the flush that makes room, and returns at
  once when that flush fails, so the staged bytes are dropped. With capacity 4 over a
  file that fails once: \<open>Write("ab\ncd")\<close> returns 5; \<open>Write("e\nf")\<close> returns 0 and
  the error, and the writer then holds \<open>ab\n\<close> only, \<open>cd\<close> being lost; the same
  \<open>Write("e\nf")\<close> again returns 3, and after \<open>Flush\<close> the file holds \<open>ab\ne\n\<close>,
  where the bytes accepted are \<open>ab\ncde\nf\<close>.
\<close>

theorem failed_flush_loses_staged_bytes:
  "NewWriterSize failing_once 4 = Inr (new_writer failing_once 4) \<and>
   execs (new_writer failing_once 4)
     [CallWrite ''ab\<newline>cd'', CallWrite ''e\<newline>f'', CallWrite ''e\<newline>f'', CallFlush] =
     ([RWrite 5 None, RWrite 0 (Some (Failure ''disk full'')), RWrite 3 None, RFlush None],
      \<lparr>bufsize = 4,
       writer = failing_once\<lparr>wstate := (False, ''ab\<newline>e\<newline>''),
                              seen := [''ab\<newline>'', ''ab\<newline>'', ''e\<newline>'']\<rparr>,
       buffer = [], linebuf = ''f'', finished = False,
       lineCount = 2, savedLineCount = 2, prevLineCount = 0, worthFlushing = False\<rparr>) \<and>
   execs (new_writer failing_once 4) [CallWrite ''ab\<newline>cd'', CallWrite ''e\<newline>f''] =
     ([RWrite 5 None, RWrite 0 (Some (Failure ''disk full''))],
      \<lparr>bufsize = 4,
       writer = failing_once\<lparr>wstate := (False, []), seen := [''ab\<newline>'']\<rparr>,
       buffer = ''ab\<newline>'', linebuf = [], finished = False,
       lineCount = 1, savedLineCount = 0, prevLineCount = 0, worthFlushing = False\<rparr>)"
  by (simp add: NewWriterSize_def new_writer_def failing_once_def Write_def Write_loop.simps
        Write_line_def Write_stage_def Write_make_room_def Write_append_def Buffer_Write_def
        nl_def Flush_def Buffer_WriteTo_def io_Write_def)

subsection \<open>The counters and the flushing hint\<close>

lemma FlushAll_counts:
  "FlushAll w = (e, w') \<Longrightarrow>
     lineCount w' = lineCount w \<and> bufsize w' = bufsize w \<and>
     (savedLineCount w' = savedLineCount w \<or> savedLineCount w' = lineCount w)"
  by (auto simp: FlushAll_def Let_def split: if_splits prod.splits option.splits dest!: Flush_counts)

lemma exec_counts:
  assumes "exec w c = (r, w')" and "savedLineCount w \<le> lineCount w"
  shows "savedLineCount w' \<le> lineCount w' \<and> bufsize w' = bufsize w"
proof (cases c)
  case (CallWrite data)
  with assms(1) obtain n e where "Write_loop w data 0 = (n, e, w')"
    by (auto simp: Write_def split: prod.splits)
  from Write_loop_counts[OF this assms(2)] show ?thesis .
next
  case CallFlush
  with assms(1) obtain e where "Flush w = (e, w')" by (auto split: prod.splits)
  from Flush_counts[OF this] assms(2) show ?thesis by auto
next
  case CallFlushAll
  with assms(1) obtain e where "FlushAll w = (e, w')" by (auto split: prod.splits)
  from FlushAll_counts[OF this] assms(2) show ?thesis by auto
next
  case CallWorthFlushing
  with assms show ?thesis by (auto simp: WorthFlushing_def Let_def)
qed

lemma reachable_counts: "reachable w \<Longrightarrow> savedLineCount w \<le> lineCount w \<and> 0 \<le> bufsize w"
proof (induction rule: reachable.induct)
  case (fresh W sz w)
  then show ?case by (auto simp: NewWriterSize_def split: if_splits)
next
  case (step w c r w')
  with exec_counts[OF step.hyps(2)] show ?case by simp
qed

text \<open>
  Claim C5. In every state that a new writer reaches through \<open>Write\<close>, \<open>Flush\<close>,
  \<open>FlushAll\<close> and \<open>WorthFlushing\<close> calls, failed ones included, \<open>WorthFlushing\<close>
  returns true exactly when the hint is set, \<open>savedLineCount < lineCount\<close> and
  \<open>savedLineCount = prevLineCount\<close>; whatever it returns, it leaves
  \<open>prevLineCount = savedLineCount\<close> and the hint set, and changes nothing else. (The
  code tests \<open>savedLineCount != lineCount\<close>; in these states \<open>savedLineCount\<close> is never
  the larger.)
\<close>

theorem WorthFlushing_result:
  assumes "reachable w"
  shows "fst (WorthFlushing w) =
           (worthFlushing w \<and> savedLineCount w < lineCount w \<and> savedLineCount w = prevLineCount w) \<and>
         snd (WorthFlushing w) = w\<lparr>prevLineCount := savedLineCount w, worthFlushing := True\<rparr>"
  using reachable_counts[OF assms] by (auto simp: WorthFlushing_def Let_def)

text \<open>
  After \<open>Write("a\n")\<close> on a new writer the hint is true; on the new writer itself,
  with nothing to flush, it is false.
\<close>

theorem WorthFlushing_result_witness:
  "reachable ((new_writer accepting 16)\<lparr>buffer := ''a\<newline>'', lineCount := 1\<rparr>) \<and>
   WorthFlushing ((new_writer accepting 16)\<lparr>buffer := ''a\<newline>'', lineCount := 1\<rparr>) =
     (True, (new_writer accepting 16)\<lparr>buffer := ''a\<newline>'', lineCount := 1\<rparr>) \<and>
   fst (WorthFlushing (new_writer accepting 16)) = False"
proof -
  have new: "reachable (new_writer accepting 16)"
    by (rule reachable.fresh[of accepting 16]) (simp add: NewWriterSize_new)
  have wr: "exec (new_writer accepting 16) (CallWrite ''a\<newline>'') =
     (RWrite 2 None, (new_writer accepting 16)\<lparr>buffer := ''a\<newline>'', lineCount := 1\<rparr>)"
    by (simp add: new_writer_def Write_def Write_loop.simps Write_line_def
        Write_stage_def Write_make_room_def Write_append_def Buffer_Write_def nl_def)
  have r: "reachable ((new_writer accepting 16)\<lparr>buffer := ''a\<newline>'', lineCount := 1\<rparr>)"
    by (rule reachable.step[OF new wr])
  from WorthFlushing_result[OF r] WorthFlushing_result[OF new] r show ?thesis
    by (simp add: new_writer_def prod_eq_iff)
qed

subsection \<open>The capacity check\<close>

text \<open>
  The body of the loop of \<open>Write\<close>, for a chunk \<open>l\<close> that ends a line and is committed
  without error: the line to commit is \<open>full_line w l\<close>; when the committed length
  plus the line's length exceeds the capacity, the committed bytes are flushed before
  the append, the buffer is empty at the append and the hint is left cleared;
  otherwise nothing is flushed. Either way the committed length is at most the
  capacity right before the append, and the append adds the whole line in one piece.
\<close>

lemma Write_line_capacity_step:
  assumes "Write_line w l = (None, w')" and "0 \<le> bufsize w"
  shows "\<exists>w0 w1. Write_stage w l = (None, full_line w l, w0) \<and>
           Write_make_room w0 (full_line w l) = (None, w1) \<and>
           int (length (buffer w1)) \<le> bufsize w1 \<and>
           Write_append w1 (full_line w l) = (None, w') \<and>
           buffer w' = buffer w1 @ full_line w l \<and>
           (if int (length (buffer w0)) + int (length (full_line w l)) > bufsize w0
            then handed w1 = handed w @ buffer w \<and> buffer w1 = [] \<and> \<not> worthFlushing w'
            else w1 = w0 \<and> handed w' = handed w \<and> worthFlushing w' = worthFlushing w)"
proof -
  define w0 where "w0 = (if finished w then w else w\<lparr>linebuf := []\<rparr>)"
  have stage: "Write_stage w l = (None, full_line w l, w0)"
    by (simp add: Write_stage_def Buffer_Write_def full_line_def w0_def)
  have w0: "buffer w0 = buffer w" "bufsize w0 = bufsize w" "handed w0 = handed w"
    "worthFlushing w0 = worthFlushing w"
    by (simp_all add: w0_def handed_def)
  from assms(1) stage obtain w1 where
    room: "Write_make_room w0 (full_line w l) = (None, w1)" and
    app: "Write_append w1 (full_line w l) = (None, w')"
    by (auto simp: Write_line_def split: prod.splits option.splits)
  from app have w': "w' = w1\<lparr>buffer := buffer w1 @ full_line w l\<rparr>"
    by (simp add: Write_append_def Buffer_Write_def)
  show ?thesis
  proof (cases "int (length (buffer w0)) + int (length (full_line w l)) > bufsize w0")
    case True
    with room have fl: "Flush (w0\<lparr>worthFlushing := False\<rparr>) = (None, w1)"
      by (simp add: Write_make_room_def)
    from Flush_ok[OF fl] w0 assms(2) True stage room app w' show ?thesis
      by (simp add: handed_def)
  next
    case False
    with room have "w1 = w0" by (simp add: Write_make_room_def)
    with False w0 stage room app w' show ?thesis by (simp add: handed_def)
  qed
qed

lemma complete_lines_none: "nl \<notin> set data \<Longrightarrow> complete_lines data = []"
  by (induction data) auto

lemma complete_lines_first:
  "nl \<notin> set pre \<Longrightarrow> complete_lines (pre @ [nl] @ rest) = (pre @ [nl]) # complete_lines rest"
  by (induction pre) auto

lemma complete_lines_split:
  assumes "nl \<in> set data"
  shows "complete_lines data =
           take (nat (IndexByte data nl + 1)) data
             # complete_lines (drop (nat (IndexByte data nl + 1)) data)"
proof -
  let ?k = "nat (IndexByte data nl + 1)"
  from take_IndexByte[OF assms] obtain pre where
    pre: "take ?k data = pre @ [nl]" "nl \<notin> set pre" by blast
  have "data = take ?k data @ drop ?k data" by simp
  with pre have "data = pre @ [nl] @ drop ?k data" by simp
  then have "complete_lines data = complete_lines (pre @ [nl] @ drop ?k data)" by simp
  also have "\<dots> = (pre @ [nl]) # complete_lines (drop ?k data)"
    by (rule complete_lines_first[OF pre(2)])
  finally show ?thesis using pre(1) by simp
qed

lemma Flush_seen:
  "Flush w = (None, w') \<Longrightarrow>
     seen (writer w') = (if buffer w = [] then seen (writer w) else seen (writer w) @ [buffer w])"
  by (auto simp: Flush_def Buffer_WriteTo_def io_Write_def Let_def split: if_splits prod.splits)

lemma Write_line_view:
  assumes "Write_line w l = (None, w1)"
  shows "view w1 = rule_commit (bufsize w) (view w) (full_line w l)"
proof -
  define w0 where "w0 = (if finished w then w else w\<lparr>linebuf := []\<rparr>)"
  have stage: "Write_stage w l = (None, full_line w l, w0)"
    by (simp add: Write_stage_def Buffer_Write_def full_line_def w0_def)
  have w0: "buffer w0 = buffer w" "bufsize w0 = bufsize w" "seen (writer w0) = seen (writer w)"
    "worthFlushing w0 = worthFlushing w"
    by (simp_all add: w0_def)
  from assms stage obtain w2 where
    room: "Write_make_room w0 (full_line w l) = (None, w2)" and
    app: "Write_append w2 (full_line w l) = (None, w1)"
    by (auto simp: Write_line_def split: prod.splits option.splits)
  from app have w1: "w1 = w2\<lparr>buffer := buffer w2 @ full_line w l\<rparr>"
    by (simp add: Write_append_def Buffer_Write_def)
  show ?thesis
  proof (cases "int (length (buffer w0)) + int (length (full_line w l)) > bufsize w0")
    case True
    with room have fl: "Flush (w0\<lparr>worthFlushing := False\<rparr>) = (None, w2)"
      by (simp add: Write_make_room_def)
    from Flush_ok[OF fl] Flush_seen[OF fl] True w0 w1 show ?thesis
      by (simp add: view_def rule_commit_def)
  next
    case False
    with room have "w2 = w0" by (simp add: Write_make_room_def)
    with False w0 w1 show ?thesis by (simp add: view_def rule_commit_def)
  qed
qed

lemma Write_loop_view:
  "Write_loop w data nn = (n, None, w') \<Longrightarrow>
     view w' = foldl (rule_commit (bufsize w)) (view w) (lines_to_commit w data)"
proof (induction w data nn rule: Write_loop.induct)
  case (1 w data nn)
  show ?case
  proof (cases "0 < length data \<and> \<not> IndexByte data nl < 0")
    case False
    then have none: "complete_lines data = []"
      by (cases "data = []") (auto simp: IndexByte_neg_iff complete_lines_none)
    from False "1.prems" have "view w' = view w"
      by (subst (asm) Write_loop.simps) (auto simp: Buffer_Write_def view_def split: if_splits)
    with none show ?thesis by (simp add: lines_to_commit_def)
  next
    case True
    let ?k = "nat (IndexByte data nl + 1)"
    from True have mem: "nl \<in> set data" by (simp add: IndexByte_neg_iff)
    obtain e1 w1 where wl: "Write_line w (take ?k data) = (e1, w1)"
      by (cases "Write_line w (take ?k data)") auto
    have e1: "e1 = None"
    proof (cases e1)
      case (Some err)
      with True wl "1.prems"(1) show ?thesis
        by (subst (asm) Write_loop.simps) simp
    qed simp
    let ?w2 = "w1\<lparr>lineCount := lineCount w1 + 1, finished := True\<rparr>"
    from e1 True wl "1.prems"(1)
    have rec: "Write_loop ?w2 (drop ?k data) (nn + (IndexByte data nl + 1)) = (n, None, w')"
      by (subst (asm) Write_loop.simps) simp
    from wl e1 have wl': "Write_line w (take ?k data) = (None, w1)" by simp
    note v1 = Write_line_view[OF wl']
    from Write_line_counts[OF wl'] have size: "bufsize w1 = bufsize w" by simp
    have v2: "view ?w2 = view w1" by (simp add: view_def)
    have later: "lines_to_commit ?w2 (drop ?k data) = complete_lines (drop ?k data)"
      by (cases "complete_lines (drop ?k data)") (simp_all add: lines_to_commit_def full_line_def)
    from "1.IH"[OF _ _ _ _ rec] True wl e1
    have "view w' = foldl (rule_commit (bufsize ?w2)) (view ?w2) (lines_to_commit ?w2 (drop ?k data))"
      by simp
    with v1 v2 size later
    have "view w' = foldl (rule_commit (bufsize w))
                      (rule_commit (bufsize w) (view w) (full_line w (take ?k data)))
                      (complete_lines (drop ?k data))"
      by simp
    moreover have "lines_to_commit w data
                     = full_line w (take ?k data) # complete_lines (drop ?k data)"
      by (simp add: lines_to_commit_def complete_lines_split[OF mem])
    ultimately show ?thesis by simp
  qed
qed

lemma rule_rooms_within:
  "0 \<le> C \<Longrightarrow> list_all (\<lambda>st. int (length (fst (snd st))) \<le> C) (rule_rooms C st ls)"
proof (induction ls arbitrary: st)
  case Nil
  then show ?case by simp
next
  case (Cons L ls)
  obtain out com hint where st: "st = (out, com, hint)" by (cases st) auto
  from Cons.prems have "int (length (fst (snd (rule_make_room C st L)))) \<le> C"
    by (simp add: st)
  with Cons show ?case by simp
qed

lemma Flush_fails:
  assumes "Flush w = (Some err, w')"
  shows "buffer w \<noteq> [] \<and> seen (writer w') = seen (writer w) @ [buffer w] \<and>
         (\<exists>m. buffer w' = drop m (buffer w)) \<and> worthFlushing w' = worthFlushing w"
proof -
  from assms have ne: "buffer w \<noteq> []" by (auto simp: Flush_def split: if_splits)
  obtain m e W' where io: "io_Write (writer w) (buffer w) = (m, e, W')"
    by (cases "io_Write (writer w) (buffer w)") auto
  then have s: "seen W' = seen (writer w) @ [buffer w]"
    by (auto simp: io_Write_def split: prod.splits)
  from assms ne io have "writer w' = W' \<and> (buffer w' = buffer w \<or> buffer w' = drop m (buffer w))
      \<and> worthFlushing w' = worthFlushing w"
    by (auto simp: Flush_def Buffer_WriteTo_def Let_def split: if_splits)
  moreover have "buffer w = drop 0 (buffer w)" by simp
  ultimately show ?thesis using ne s by metis
qed

lemma Write_line_fails:
  assumes "Write_line w l = (Some err, w1)"
  shows "int (length (buffer w)) + int (length (full_line w l)) > bufsize w \<and>
         seen (writer w1) = seen (writer w) @ [buffer w] \<and>
         (\<exists>m. buffer w1 = drop m (buffer w)) \<and> \<not> worthFlushing w1"
proof -
  define w0 where "w0 = (if finished w then w else w\<lparr>linebuf := []\<rparr>)"
  have stage: "Write_stage w l = (None, full_line w l, w0)"
    by (simp add: Write_stage_def Buffer_Write_def full_line_def w0_def)
  have w0: "buffer w0 = buffer w" "bufsize w0 = bufsize w" "seen (writer w0) = seen (writer w)"
    by (simp_all add: w0_def)
  from assms stage have room: "Write_make_room w0 (full_line w l) = (Some err, w1)"
    by (auto simp: Write_line_def Write_append_def Buffer_Write_def split: prod.splits option.splits)
  then have ov: "int (length (buffer w0)) + int (length (full_line w l)) > bufsize w0"
    and fl: "Flush (w0\<lparr>worthFlushing := False\<rparr>) = (Some err, w1)"
    by (auto simp: Write_make_room_def split: if_splits)
  from Flush_fails[OF fl] ov w0 show ?thesis by simp
qed

lemma Write_loop_fails:
  "Write_loop w data nn = (n, Some err, w') \<Longrightarrow>
     \<exists>k < length (lines_to_commit w data).
       (case foldl (rule_commit (bufsize w)) (view w) (take k (lines_to_commit w data)) of
          (out, com, hint) \<Rightarrow>
            int (length com) + int (length (lines_to_commit w data ! k)) > bufsize w \<and>
            seen (writer w') = out @ [com] \<and> (\<exists>m. buffer w' = drop m com) \<and>
            \<not> worthFlushing w')"
proof (induction w data nn rule: Write_loop.induct)
  case (1 w data nn)
  show ?case
  proof (cases "0 < length data \<and> \<not> IndexByte data nl < 0")
    case False
    with "1.prems" show ?thesis
      by (subst (asm) Write_loop.simps) (auto simp: Buffer_Write_def split: if_splits)
  next
    case True
    let ?k = "nat (IndexByte data nl + 1)"
    let ?C = "bufsize w"
    from True have mem: "nl \<in> set data" by (simp add: IndexByte_neg_iff)
    have lines: "lines_to_commit w data
                   = full_line w (take ?k data) # complete_lines (drop ?k data)"
      by (simp add: lines_to_commit_def complete_lines_split[OF mem])
    obtain e1 w1 where wl: "Write_line w (take ?k data) = (e1, w1)"
      by (cases "Write_line w (take ?k data)") auto
    show ?thesis
    proof (cases e1)
      case (Some e)
      with True wl "1.prems"(1) have "e = err" "w' = w1"
        by (subst (asm) Write_loop.simps, simp)+
      with wl Some have "Write_line w (take ?k data) = (Some err, w')" by simp
      from Write_line_fails[OF this]
      have "case foldl (rule_commit ?C) (view w) (take 0 (lines_to_commit w data)) of
          (out, com, hint) \<Rightarrow>
            int (length com) + int (length (lines_to_commit w data ! 0)) > ?C \<and>
            seen (writer w') = out @ [com] \<and> (\<exists>m. buffer w' = drop m com) \<and>
            \<not> worthFlushing w'"
        by (simp add: lines view_def)
      moreover have "0 < length (lines_to_commit w data)" by (simp add: lines)
      ultimately have "0 < length (lines_to_commit w data) \<and>
        (case foldl (rule_commit ?C) (view w) (take 0 (lines_to_commit w data)) of
          (out, com, hint) \<Rightarrow>
            int (length com) + int (length (lines_to_commit w data ! 0)) > ?C \<and>
            seen (writer w') = out @ [com] \<and> (\<exists>m. buffer w' = drop m com) \<and>
            \<not> worthFlushing w')"
        by (intro conjI)
      then show ?thesis by (rule exI[where x = 0])
    next
      case None
      let ?w2 = "w1\<lparr>lineCount := lineCount w1 + 1, finished := True\<rparr>"
      from None True wl "1.prems"(1)
      have rec: "Write_loop ?w2 (drop ?k data) (nn + (IndexByte data nl + 1)) = (n, Some err, w')"
        by (subst (asm) Write_loop.simps) simp
      from wl None have wl': "Write_line w (take ?k data) = (None, w1)" by simp
      note v1 = Write_line_view[OF wl']
      from Write_line_counts[OF wl'] have size: "bufsize w1 = ?C" by simp
      have v2: "view ?w2 = view w1" by (simp add: view_def)
      have later: "lines_to_commit ?w2 (drop ?k data) = complete_lines (drop ?k data)"
        by (cases "complete_lines (drop ?k data)") (simp_all add: lines_to_commit_def full_line_def)
      from "1.IH"[OF _ _ _ _ rec] True wl None
      have "\<exists>k < length (lines_to_commit ?w2 (drop ?k data)).
        (case foldl (rule_commit (bufsize ?w2)) (view ?w2)
                    (take k (lines_to_commit ?w2 (drop ?k data))) of
          (out, com, hint) \<Rightarrow>
            int (length com) + int (length (lines_to_commit ?w2 (drop ?k data) ! k)) > bufsize ?w2 \<and>
            seen (writer w') = out @ [com] \<and> (\<exists>m. buffer w' = drop m com) \<and>
            \<not> worthFlushing w')"
        by simp
      then obtain k where kk: "k < length (lines_to_commit ?w2 (drop ?k data)) \<and>
        (case foldl (rule_commit (bufsize ?w2)) (view ?w2)
                    (take k (lines_to_commit ?w2 (drop ?k data))) of
          (out, com, hint) \<Rightarrow>
            int (length com) + int (length (lines_to_commit ?w2 (drop ?k data) ! k)) > bufsize ?w2 \<and>
            seen (writer w') = out @ [com] \<and> (\<exists>m. buffer w' = drop m com) \<and>
            \<not> worthFlushing w')" ..
      note k = conjunct1[OF kk] and at = conjunct2[OF kk]
      from k later lines have "Suc k < length (lines_to_commit w data)" by simp
      moreover from at v1 v2 size later lines
      have "case foldl (rule_commit ?C) (view w) (take (Suc k) (lines_to_commit w data)) of
          (out, com, hint) \<Rightarrow>
            int (length com) + int (length (lines_to_commit w data ! Suc k)) > ?C \<and>
            seen (writer w') = out @ [com] \<and> (\<exists>m. buffer w' = drop m com) \<and>
            \<not> worthFlushing w'"
        by simp
      ultimately have "Suc k < length (lines_to_commit w data) \<and>
        (case foldl (rule_commit ?C) (view w) (take (Suc k) (lines_to_commit w data)) of
          (out, com, hint) \<Rightarrow>
            int (length com) + int (length (lines_to_commit w data ! Suc k)) > ?C \<and>
            seen (writer w') = out @ [com] \<and> (\<exists>m. buffer w' = drop m com) \<and>
            \<not> worthFlushing w')"
        by (intro conjI)
      then show ?thesis by (rule exI[where x = "Suc k"])
    qed
  qed
qed

text \<open>
  Claim C6. \<open>Write\<close> treats every line it has to commit, in order, by the capacity
  rule. When it returns without error, the chunks handed to the underlying writer,
  the committed bytes and the hint after the call are those the rule gives from their
  values before the call: when the committed length plus the line's length exceeds
  the capacity, the committed bytes are flushed before the line is appended and the
  hint is cleared, and every line is appended whole. When it returns an error, it has
  treated some of the lines so, and stopped at the next one, for which room had to be
  made: the committed bytes were handed to the underlying writer with the hint
  cleared, and the line was not appended. Right before each append the committed
  length is at most the capacity.
\<close>

theorem Write_capacity_rule:
  assumes "Write w data = (n, e, w')" and "0 \<le> bufsize w"
  shows "(e = None \<longrightarrow>
            view w' = foldl (rule_commit (bufsize w)) (view w) (lines_to_commit w data)) \<and>
         (e \<noteq> None \<longrightarrow>
            (\<exists>k < length (lines_to_commit w data).
               (case foldl (rule_commit (bufsize w)) (view w) (take k (lines_to_commit w data)) of
                  (out, com, hint) \<Rightarrow>
                    int (length com) + int (length (lines_to_commit w data ! k)) > bufsize w \<and>
                    seen (writer w') = out @ [com] \<and> (\<exists>m. buffer w' = drop m com) \<and>
                    \<not> worthFlushing w'))) \<and>
         list_all (\<lambda>st. int (length (fst (snd st))) \<le> bufsize w)
           (rule_rooms (bufsize w) (view w) (lines_to_commit w data))"
proof (intro conjI impI)
  assume "e = None"
  with assms(1) show "view w' = foldl (rule_commit (bufsize w)) (view w) (lines_to_commit w data)"
    using Write_loop_view[of w data 0 n w'] by (simp add: Write_def)
next
  assume "e \<noteq> None"
  then obtain err where "e = Some err" by auto
  with assms(1) have "Write_loop w data 0 = (n, Some err, w')" by (simp add: Write_def)
  then show "\<exists>k < length (lines_to_commit w data).
               (case foldl (rule_commit (bufsize w)) (view w) (take k (lines_to_commit w data)) of
                  (out, com, hint) \<Rightarrow>
                    int (length com) + int (length (lines_to_commit w data ! k)) > bufsize w \<and>
                    seen (writer w') = out @ [com] \<and> (\<exists>m. buffer w' = drop m com) \<and>
                    \<not> worthFlushing w')"
    by (rule Write_loop_fails)
next
  show "list_all (\<lambda>st. int (length (fst (snd st))) \<le> bufsize w)
           (rule_rooms (bufsize w) (view w) (lines_to_commit w data))"
    by (rule rule_rooms_within[OF assms(2)])
qed

text \<open>
  Capacity 4, \<open>Write("ab\ncde\n")\<close> on a new writer: \<open>ab\n\<close> is committed, then
  flushed to make room for \<open>cde\n\<close>, and the hint is cleared. Over the file that
  fails once, the same call stops at \<open>cde\n\<close>: \<open>ab\n\<close> was handed down, the hint is
  cleared, and the committed buffer still holds \<open>ab\n\<close>.
\<close>

theorem Write_capacity_rule_witness:
  "Write (new_writer accepting 4) ''ab\<newline>cde\<newline>'' =
     (7, None, (new_writer accepting 4)
                 \<lparr>writer := accepting\<lparr>seen := [''ab\<newline>'']\<rparr>, buffer := ''cde\<newline>'',
                  lineCount := 2, savedLineCount := 1, worthFlushing := False\<rparr>) \<and>
   0 \<le> bufsize (new_writer accepting 4) \<and>
   lines_to_commit (new_writer accepting 4) ''ab\<newline>cde\<newline>'' = [''ab\<newline>'', ''cde\<newline>''] \<and>
   foldl (rule_commit 4) (view (new_writer accepting 4)) [''ab\<newline>'', ''cde\<newline>'']
     = ([''ab\<newline>''], ''cde\<newline>'', False) \<and>
   rule_rooms 4 (view (new_writer accepting 4)) [''ab\<newline>'', ''cde\<newline>'']
     = [([], [], True), ([''ab\<newline>''], [], False)] \<and>
   view ((new_writer accepting 4)
                 \<lparr>writer := accepting\<lparr>seen := [''ab\<newline>'']\<rparr>, buffer := ''cde\<newline>'',
                  lineCount := 2, savedLineCount := 1, worthFlushing := False\<rparr>)
     = ([''ab\<newline>''], ''cde\<newline>'', False) \<and>
   Write (new_writer failing_once 4) ''ab\<newline>cde\<newline>'' =
     (3, Some (Failure ''disk full''),
      (new_writer failing_once 4)
        \<lparr>writer := failing_once\<lparr>wstate := (False, []), seen := [''ab\<newline>'']\<rparr>,
         buffer := ''ab\<newline>'', lineCount := 1, worthFlushing := False\<rparr>) \<and>
   (\<exists>k < length (lines_to_commit (new_writer failing_once 4) ''ab\<newline>cde\<newline>'').
      (case foldl (rule_commit (bufsize (new_writer failing_once 4)))
                  (view (new_writer failing_once 4))
                  (take k (lines_to_commit (new_writer failing_once 4) ''ab\<newline>cde\<newline>'')) of
         (out, com, hint) \<Rightarrow>
           int (length com)
             + int (length (lines_to_commit (new_writer failing_once 4) ''ab\<newline>cde\<newline>'' ! k))
             > bufsize (new_writer failing_once 4) \<and>
           seen (writer ((new_writer failing_once 4)
                  \<lparr>writer := failing_once\<lparr>wstate := (False, []), seen := [''ab\<newline>'']\<rparr>,
                   buffer := ''ab\<newline>'', lineCount := 1, worthFlushing := False\<rparr>)) = out @ [com] \<and>
           (\<exists>m. buffer ((new_writer failing_once 4)
                  \<lparr>writer := failing_once\<lparr>wstate := (False, []), seen := [''ab\<newline>'']\<rparr>,
                   buffer := ''ab\<newline>'', lineCount := 1, worthFlushing := False\<rparr>) = drop m com) \<and>
           \<not> worthFlushing ((new_writer failing_once 4)
                  \<lparr>writer := failing_once\<lparr>wstate := (False, []), seen := [''ab\<newline>'']\<rparr>,
                   buffer := ''ab\<newline>'', lineCount := 1, worthFlushing := False\<rparr>)))"
proof -
  let ?w' = "(new_writer accepting 4)
                 \<lparr>writer := accepting\<lparr>seen := [''ab\<newline>'']\<rparr>, buffer := ''cde\<newline>'',
                  lineCount := 2, savedLineCount := 1, worthFlushing := False\<rparr>"
  let ?f' = "(new_writer failing_once 4)
        \<lparr>writer := failing_once\<lparr>wstate := (False, []), seen := [''ab\<newline>'']\<rparr>,
         buffer := ''ab\<newline>'', lineCount := 1, worthFlushing := False\<rparr>"
  have run: "Write (new_writer accepting 4) ''ab\<newline>cde\<newline>'' = (7, None, ?w')"
    by (simp add: new_writer_def accepting_def Write_def Write_loop.simps Write_line_def
        Write_stage_def Write_make_room_def Write_append_def Buffer_Write_def nl_def
        Flush_def Buffer_WriteTo_def io_Write_def)
  have size: "0 \<le> bufsize (new_writer accepting 4)" by (simp add: new_writer_def)
  have size4: "bufsize (new_writer accepting 4) = 4" by (simp add: new_writer_def)
  have lines: "lines_to_commit (new_writer accepting 4) ''ab\<newline>cde\<newline>'' = [''ab\<newline>'', ''cde\<newline>'']"
    by (simp add: lines_to_commit_def full_line_def new_writer_def nl_def)
  have fold: "foldl (rule_commit 4) (view (new_writer accepting 4)) [''ab\<newline>'', ''cde\<newline>'']
     = ([''ab\<newline>''], ''cde\<newline>'', False)"
    by (simp add: rule_commit_def view_def new_writer_def accepting_def)
  have rooms: "rule_rooms 4 (view (new_writer accepting 4)) [''ab\<newline>'', ''cde\<newline>'']
     = [([], [], True), ([''ab\<newline>''], [], False)]"
    by (simp add: rule_commit_def view_def new_writer_def accepting_def)
  from Write_capacity_rule[OF run size]
  have "view ?w' = foldl (rule_commit (bufsize (new_writer accepting 4)))
                     (view (new_writer accepting 4))
                     (lines_to_commit (new_writer accepting 4) ''ab\<newline>cde\<newline>'')"
    by blast
  then have "view ?w' = foldl (rule_commit 4) (view (new_writer accepting 4)) [''ab\<newline>'', ''cde\<newline>'']"
    by (simp only: size4 lines)
  with fold have v: "view ?w' = ([''ab\<newline>''], ''cde\<newline>'', False)" by simp
  have fail: "Write (new_writer failing_once 4) ''ab\<newline>cde\<newline>'' =
                (3, Some (Failure ''disk full''), ?f')"
    by (simp add: new_writer_def failing_once_def Write_def Write_loop.simps Write_line_def
        Write_stage_def Write_make_room_def Write_append_def Buffer_Write_def nl_def
        Flush_def Buffer_WriteTo_def io_Write_def)
  have fsize: "0 \<le> bufsize (new_writer failing_once 4)" by (simp add: new_writer_def)
  have ne: "Some (Failure ''disk full'') \<noteq> None" by simp
  from Write_capacity_rule[OF fail fsize] ne
  have stopped: "\<exists>k < length (lines_to_commit (new_writer failing_once 4) ''ab\<newline>cde\<newline>'').
      (case foldl (rule_commit (bufsize (new_writer failing_once 4)))
                  (view (new_writer failing_once 4))
                  (take k (lines_to_commit (new_writer failing_once 4) ''ab\<newline>cde\<newline>'')) of
         (out, com, hint) \<Rightarrow>
           int (length com)
             + int (length (lines_to_commit (new_writer failing_once 4) ''ab\<newline>cde\<newline>'' ! k))
             > bufsize (new_writer failing_once 4) \<and>
           seen (writer ?f') = out @ [com] \<and> (\<exists>m. buffer ?f' = drop m com) \<and>
           \<not> worthFlushing ?f')"
    by blast
  from run size lines fold rooms v fail stopped show ?thesis by (intro conjI)
qed


section \<open>Properties of the checkpoint\<close>

subsection \<open>The encoder and the reader\<close>

lemma digits4:
  fixes n b :: nat
  assumes "n < b * (b * (b * b))"
  shows "n mod b + b * (n div b mod b) + (b * b) * (n div (b * b) mod b)
           + (b * (b * b)) * (n div (b * (b * b)) mod b) = n"
proof -
  have d3: "n div (b * (b * b)) mod b = n div (b * (b * b))"
  proof (cases "b = 0")
    case False
    from assms have "n div (b * (b * b)) < b"
      by (simp add: less_mult_imp_div_less mult.commute)
    then show ?thesis by simp
  qed simp
  have "n = (b * (b * b)) * (n div (b * (b * b))) + n mod (b * (b * b))" by simp
  also have "n mod (b * (b * b)) = b * (n div b mod (b * b)) + n mod b"
    by (rule mod_mult2_eq)
  also have "n div b mod (b * b) = b * (n div b div b mod b) + n div b mod b"
    by (rule mod_mult2_eq)
  also have "n div b div b = n div (b * b)" by (simp add: div_mult2_eq)
  finally have "n = (b * (b * b)) * (n div (b * (b * b)))
                  + (b * (b * (n div (b * b) mod b) + n div b mod b) + n mod b)" .
  then show ?thesis by (simp add: d3 algebra_simps)
qed

lemma bytes_of_nat32:
  "n < 4294967296 \<Longrightarrow>
     n mod 256 + 256 * (n div 256 mod 256) + 65536 * (n div 65536 mod 256)
       + 16777216 * (n div 16777216 mod 256) = (n::nat)"
  using digits4[of n 256] by simp

lemma unat_lt32: "unat (v :: 32 word) < 4294967296"
  using unsigned_less[of v, where 'a=nat] by simp

lemma bindec_binenc_Uint32: "bindec_Uint32 (binenc_Uint32 v @ rest) = (v, True, rest)"
  by (simp add: bindec_Uint32_def le_uint32_def binenc_Uint32_def Let_def bytes_of_nat32[OF unat_lt32])

lemma bindec_Bytes_exact: "bindec_Bytes (b @ rest) (int (length b)) = (b, True, rest)"
  by (simp add: bindec_Bytes_def)

lemma bindec_binenc_Bool: "bindec_Bool (binenc_Bool b @ rest) = (b, True, rest)"
  by (simp add: bindec_Bool_def binenc_Bool_def)

lemma uint32_of_int: "0 \<le> x \<Longrightarrow> x < 4294967296 \<Longrightarrow> uint (word_of_int x :: 32 word) = x"
  by (simp add: uint_word_of_int)

lemma uint32_of_nat: "n < 4294967296 \<Longrightarrow> uint (word_of_nat n :: 32 word) = int n"
  using uint32_of_int[of "int n"] by simp

subsection \<open>Dump, then restore\<close>

lemma DumpState_checkpoint: "DumpState w dest = (w, dest @ checkpoint w)"
  by (simp add: DumpState_def dest_Write_def Buffer_Write_def checkpoint_def)

lemma RestoreState_checkpoint:
  assumes "fits_u32 w"
  shows "RestoreState w0 (checkpoint w @ rest) = (None, w\<lparr>writer := writer w0\<rparr>)"
proof -
  from assms have u:
    "uint (word_of_int (bufsize w) :: 32 word) = bufsize w"
    "uint (word_of_nat (length (buffer w)) :: 32 word) = int (length (buffer w))"
    "uint (word_of_nat (length (linebuf w)) :: 32 word) = int (length (linebuf w))"
    "uint (word_of_int (lineCount w) :: 32 word) = lineCount w"
    "uint (word_of_int (savedLineCount w) :: 32 word) = savedLineCount w"
    "uint (word_of_int (prevLineCount w) :: 32 word) = prevLineCount w"
    by (simp_all add: fits_u32_def uint32_of_int uint32_of_nat)
  show ?thesis
    unfolding RestoreState_def checkpoint_def bindec_New_def
    by (simp add: bindec_binenc_Uint32 bindec_Bytes_exact bindec_binenc_Bool u)
qed


text \<open>
  Claim C4, amended. \<open>DumpState\<close> appends to \<open>dest\<close> the eight fields in the order
  \<open>bufsize\<close>, committed bytes, staging bytes, \<open>finished\<close>, \<open>lineCount\<close>,
  \<open>savedLineCount\<close>, \<open>prevLineCount\<close>, \<open>worthFlushing\<close>, the byte strings behind
  their lengths. When \<open>bufsize\<close>, the two lengths and the three counters are all at
  least 0 and below \<open>2 ^ 32\<close>, \<open>RestoreState\<close> of that dump on any writer \<open>w0\<close>
  returns normally and sets all eight fields to the dumped ones, so the restored
  writer is the dumped one over \<open>w0\<close>'s underlying writer and runs every later
  sequence of calls as that one does.
\<close>

theorem checkpoint_round_trip:
  assumes "fits_u32 w"
  shows "DumpState w dest = (w, dest @ checkpoint w) \<and>
         RestoreState w0 (snd (DumpState w [])) = (None, w\<lparr>writer := writer w0\<rparr>) \<and>
         (\<forall>cs. execs (snd (RestoreState w0 (snd (DumpState w [])))) cs
                 = execs (w\<lparr>writer := writer w0\<rparr>) cs)"
  using RestoreState_checkpoint[OF assms, of w0 "[]"] by (simp add: DumpState_checkpoint)

text \<open>
  The spec's scenario: dump after \<open>Write("hello\nwor")\<close>, restore on a new writer,
  \<open>Write("ld\n")\<close>: the committed buffer ends as \<open>hello\nworld\n\<close>.
\<close>

theorem checkpoint_round_trip_witness:
  "Write (new_writer accepting 1048576) ''hello\<newline>wor'' = (9, None, hello_state) \<and>
   fits_u32 hello_state \<and>
   RestoreState (new_writer accepting 16) (snd (DumpState hello_state [])) = (None, hello_state) \<and>
   Write hello_state ''ld\<newline>'' =
     (3, None, hello_state\<lparr>buffer := ''hello\<newline>world\<newline>'', linebuf := [], finished := True,
                           lineCount := 2\<rparr>)"
proof -
  have wr: "Write (new_writer accepting 1048576) ''hello\<newline>wor'' = (9, None, hello_state)"
    by (simp add: hello_state_def new_writer_def Write_def Write_loop.simps Write_line_def
        Write_stage_def Write_make_room_def Write_append_def Buffer_Write_def nl_def)
  have fits: "fits_u32 hello_state"
    by (simp add: fits_u32_def hello_state_def new_writer_def)
  have same: "hello_state\<lparr>writer := writer (new_writer accepting 16)\<rparr> = hello_state"
    by (simp add: hello_state_def new_writer_def)
  have wr2: "Write hello_state ''ld\<newline>'' =
     (3, None, hello_state\<lparr>buffer := ''hello\<newline>world\<newline>'', linebuf := [], finished := True,
                           lineCount := 2\<rparr>)"
    by (simp add: hello_state_def new_writer_def Write_def Write_loop.simps Write_line_def
        Write_stage_def Write_make_room_def Write_append_def Buffer_Write_def nl_def)
  from checkpoint_round_trip[OF fits, of "[]" "new_writer accepting 16"]
  have "RestoreState (new_writer accepting 16) (snd (DumpState hello_state []))
          = (None, hello_state\<lparr>writer := writer (new_writer accepting 16)\<rparr>)"
    by (rule conjunct1[OF conjunct2])
  with same have "RestoreState (new_writer accepting 16) (snd (DumpState hello_state []))
          = (None, hello_state)"
    by simp
  with wr fits wr2 show ?thesis by (intro conjI)
qed

text \<open>
  Claim C4 as stated fails on a new writer of capacity \<open>2 ^ 32\<close>: \<open>uint32(w.bufsize)\<close>
  is 0, so the restored writer has capacity 0. The two then differ downstream: after
  \<open>Write("a\n")\<close> and \<open>Write("b\n")\<close> the restored one has handed \<open>a\n\<close> to the
  underlying writer, the dumped one nothing.
\<close>

theorem checkpoint_round_trip_counterexample:
  "NewWriterSize accepting 4294967296 = Inr (new_writer accepting 4294967296) \<and>
   RestoreState (new_writer accepting 16) (snd (DumpState (new_writer accepting 4294967296) []))
     = (None, new_writer accepting 0) \<and>
   bufsize (new_writer accepting 0) \<noteq> bufsize (new_writer accepting 4294967296) \<and>
   handed (snd (execs (new_writer accepting 4294967296) [CallWrite ''a\<newline>'', CallWrite ''b\<newline>''])) = [] \<and>
   handed (snd (execs (new_writer accepting 0) [CallWrite ''a\<newline>'', CallWrite ''b\<newline>''])) = ''a\<newline>''"
proof -
  have wrap: "(4294967296 :: 32 word) = 0" by simp
  have same: "checkpoint (new_writer accepting 4294967296) = checkpoint (new_writer accepting 0)"
    by (simp add: checkpoint_def new_writer_def wrap)
  have fits: "fits_u32 (new_writer accepting 0)"
    by (simp add: fits_u32_def new_writer_def)
  have "RestoreState (new_writer accepting 16) (checkpoint (new_writer accepting 0) @ [])
          = (None, (new_writer accepting 0)\<lparr>writer := writer (new_writer accepting 16)\<rparr>)"
    by (rule RestoreState_checkpoint[OF fits])
  with same have restore:
    "RestoreState (new_writer accepting 16) (snd (DumpState (new_writer accepting 4294967296) []))
       = (None, new_writer accepting 0)"
    by (simp add: DumpState_checkpoint new_writer_def)
  have big: "handed (snd (execs (new_writer accepting 4294967296)
                 [CallWrite ''a\<newline>'', CallWrite ''b\<newline>''])) = []"
    by (simp add: new_writer_def accepting_def Write_def Write_loop.simps Write_line_def
        Write_stage_def Write_make_room_def Write_append_def Buffer_Write_def nl_def
        Flush_def Buffer_WriteTo_def io_Write_def handed_def)
  have zero: "handed (snd (execs (new_writer accepting 0)
                 [CallWrite ''a\<newline>'', CallWrite ''b\<newline>''])) = ''a\<newline>''"
    by (simp add: new_writer_def accepting_def Write_def Write_loop.simps Write_line_def
        Write_stage_def Write_make_room_def Write_append_def Buffer_Write_def nl_def
        Flush_def Buffer_WriteTo_def io_Write_def handed_def)
  from restore big zero show ?thesis
    by (simp add: NewWriterSize_new) (simp add: new_writer_def)
qed

subsection \<open>Inputs that are too short\<close>

lemma Uint32_ok: "4 \<le> length rr \<Longrightarrow> bindec_Uint32 rr = (le_uint32 rr, True, drop 4 rr)"
  by (simp add: bindec_Uint32_def)

lemma Uint32_fail: "length rr < 4 \<Longrightarrow> bindec_Uint32 rr = (0, False, rr)"
  by (simp add: bindec_Uint32_def)

lemma uint_le_length: "uint (n :: 32 word) \<le> int k \<longleftrightarrow> unat n \<le> k"
proof -
  have "uint n = int (unat n)" by (rule uint_nat)
  then show ?thesis by linarith
qed

lemma Bytes_ok:
  "unat n \<le> length rr \<Longrightarrow>
     bindec_Bytes rr (uint (n :: 32 word)) = (take (unat n) rr, True, drop (unat n) rr)"
  by (simp add: bindec_Bytes_def not_less uint_le_length)

lemma Bytes_fail:
  "length rr < unat n \<Longrightarrow> bindec_Bytes rr (uint (n :: 32 word)) = ([], False, rr)"
  using uint_le_length[of n "length rr"] by (simp add: bindec_Bytes_def)

lemma Bool_ok: "1 \<le> length rr \<Longrightarrow> bindec_Bool rr = (hd rr \<noteq> CHR 0x00, True, drop 1 rr)"
  by (cases rr) (simp_all add: bindec_Bool_def)

lemma Bool_fail: "length rr < 1 \<Longrightarrow> bindec_Bool rr = (False, False, rr)"
  by (cases rr) (simp_all add: bindec_Bool_def)

lemmas reads = Uint32_ok Uint32_fail Bytes_ok Bytes_fail Bool_ok Bool_fail

lemma RestoreState_by_length:
  "(too_short src \<longrightarrow> (\<exists>msg. RestoreState w src = (Some (Panic msg), w))) \<and>
   (\<not> too_short src \<longrightarrow> fst (RestoreState w src) = None)"
proof -
  define bl where "bl = unat (le_uint32 (drop 4 src))"
  define ll where "ll = unat (le_uint32 (drop (8 + bl) src))"
  have needs: "checkpoint_needs src =
      (if length src < 8 then 8 else if length src < 12 + bl then 12 + bl else 26 + bl + ll)"
    by (simp add: checkpoint_needs_def bl_def ll_def Let_def)
  have ll': "unat (le_uint32 (drop (bl + 8) src)) = ll"
    by (simp add: ll_def add.commute)
  consider (a) "length src < 4" | (b) "4 \<le> length src" "length src < 8"
    | (c) "8 \<le> length src" "length src < 8 + bl"
    | (d) "8 + bl \<le> length src" "length src < 12 + bl"
    | (e) "12 + bl \<le> length src" "length src < 12 + bl + ll"
    | (f) "12 + bl + ll \<le> length src" "length src < 13 + bl + ll"
    | (g) "13 + bl + ll \<le> length src" "length src < 17 + bl + ll"
    | (h) "17 + bl + ll \<le> length src" "length src < 21 + bl + ll"
    | (i) "21 + bl + ll \<le> length src" "length src < 25 + bl + ll"
    | (j) "25 + bl + ll \<le> length src" "length src < 26 + bl + ll"
    | (k) "26 + bl + ll \<le> length src"
    by linarith
  then show ?thesis
  proof cases
    case a
    then show ?thesis
      by (simp add: too_short_def needs RestoreState_def bindec_New_def reads)
  next
    case b
    then show ?thesis
      by (simp add: too_short_def needs RestoreState_def bindec_New_def reads)
  next
    case c
    then show ?thesis
      by (simp add: too_short_def needs RestoreState_def bindec_New_def reads bl_def[symmetric])
  next
    case d
    then show ?thesis
      by (simp add: too_short_def needs RestoreState_def bindec_New_def reads bl_def[symmetric])
  next
    case e
    then show ?thesis
      by (simp add: too_short_def needs RestoreState_def bindec_New_def reads bl_def[symmetric] ll')
  next
    case f
    then show ?thesis
      by (simp add: too_short_def needs RestoreState_def bindec_New_def reads bl_def[symmetric] ll')
  next
    case g
    then show ?thesis
      by (simp add: too_short_def needs RestoreState_def bindec_New_def reads bl_def[symmetric] ll')
  next
    case h
    then show ?thesis
      by (simp add: too_short_def needs RestoreState_def bindec_New_def reads bl_def[symmetric] ll')
  next
    case i
    then show ?thesis
      by (simp add: too_short_def needs RestoreState_def bindec_New_def reads bl_def[symmetric] ll')
  next
    case j
    then show ?thesis
      by (simp add: too_short_def needs RestoreState_def bindec_New_def reads bl_def[symmetric] ll')
  next
    case k
    then show ?thesis
      by (simp add: too_short_def needs RestoreState_def bindec_New_def reads bl_def[symmetric] ll')
  qed
qed

lemma le_uint32_binenc: "le_uint32 (binenc_Uint32 v @ rest) = v"
  using bindec_binenc_Uint32[of v rest] by (simp add: bindec_Uint32_def binenc_Uint32_def Let_def)

lemma length_binenc_Uint32 [simp]: "length (binenc_Uint32 v) = 4"
  by (simp add: binenc_Uint32_def Let_def)

lemma length_binenc_Bool [simp]: "length (binenc_Bool b) = 1"
  by (simp add: binenc_Bool_def)

lemma le_uint32_take: "4 \<le> n \<Longrightarrow> le_uint32 (take n xs) = le_uint32 xs"
  by (simp add: le_uint32_def)

lemma length_checkpoint:
  "length (checkpoint w) = 26 + length (buffer w) + length (linebuf w)"
  by (simp add: checkpoint_def)

lemma truncated_checkpoint_too_short:
  assumes fits: "fits_u32 w" and n: "n < length (checkpoint w)"
  shows "too_short (take n (checkpoint w))"
proof -
  let ?cp = "checkpoint w"
  let ?bl = "length (buffer w)"
  let ?ll = "length (linebuf w)"
  from fits have u:
    "unat (word_of_nat ?bl :: 32 word) = ?bl" "unat (word_of_nat ?ll :: 32 word) = ?ll"
    by (simp_all add: fits_u32_def unat_of_nat)
  have len: "length (take n ?cp) = n" using n by simp
  show ?thesis
  proof (cases "n < 8")
    case True
    with len show ?thesis by (simp add: too_short_def checkpoint_needs_def)
  next
    case False
    then have "le_uint32 (drop 4 (take n ?cp)) = le_uint32 (drop 4 ?cp)"
      by (simp add: drop_take le_uint32_take)
    also have "\<dots> = word_of_nat ?bl"
      by (simp add: checkpoint_def le_uint32_binenc)
    finally have bl: "unat (le_uint32 (drop 4 (take n ?cp))) = ?bl" by (simp add: u)
    show ?thesis
    proof (cases "n < 12 + ?bl")
      case True
      with False len bl show ?thesis by (simp add: too_short_def checkpoint_needs_def Let_def)
    next
      case b: False
      then have "le_uint32 (drop (8 + ?bl) (take n ?cp)) = le_uint32 (drop (8 + ?bl) ?cp)"
        by (simp add: drop_take le_uint32_take)
      also have "\<dots> = word_of_nat ?ll"
        by (simp add: checkpoint_def le_uint32_binenc)
      finally have ll: "unat (le_uint32 (drop (8 + ?bl) (take n ?cp))) = ?ll" by (simp add: u)
      from n have "n < 26 + ?bl + ?ll" by (simp add: length_checkpoint)
      with False b len bl ll show ?thesis
        by (simp add: too_short_def checkpoint_needs_def Let_def)
    qed
  qed
qed

lemma RestoreState_truncated:
  assumes "fits_u32 w" and "n < length (checkpoint w)"
  shows "\<exists>msg. RestoreState w0 (take n (checkpoint w)) = (Some (Panic msg), w0)"
  using RestoreState_by_length[of "take n (checkpoint w)" w0]
    truncated_checkpoint_too_short[OF assms]
  by blast

text \<open>
  Claim C8. On an input too short to hold all the checkpoint's fields, \<open>RestoreState\<close>
  panics and the writer is as it was before the call: no field has been assigned. On
  any other input it returns normally.
\<close>

theorem RestoreState_short_input:
  "(too_short src \<longrightarrow> (\<exists>msg. RestoreState w src = (Some (Panic msg), w))) \<and>
   (\<not> too_short src \<longrightarrow> fst (RestoreState w src) = None)"
  by (rule RestoreState_by_length)

text \<open>
  Three bytes are too short, and \<open>RestoreState\<close> panics on them at the first read; the
  dump of a writer is not too short.
\<close>

theorem RestoreState_short_input_witness:
  "too_short ''abc'' \<and>
   (\<exists>msg. RestoreState hello_state ''abc'' = (Some (Panic msg), hello_state)) \<and>
   RestoreState hello_state ''abc'' = (Some (Panic ''Cannot restore bufsize''), hello_state) \<and>
   \<not> too_short (checkpoint hello_state) \<and>
   fst (RestoreState (new_writer accepting 16) (checkpoint hello_state)) = None"
proof -
  have short: "too_short ''abc''"
    by (simp add: too_short_def checkpoint_needs_def)
  have fits: "fits_u32 hello_state"
    by (simp add: fits_u32_def hello_state_def new_writer_def)
  have ok: "fst (RestoreState (new_writer accepting 16) (checkpoint hello_state)) = None"
    using RestoreState_checkpoint[OF fits, of "new_writer accepting 16" "[]"] by simp
  have first: "RestoreState hello_state ''abc'' = (Some (Panic ''Cannot restore bufsize''), hello_state)"
    by (simp add: RestoreState_def bindec_New_def Uint32_fail)
  from RestoreState_short_input[of "''abc''" hello_state] short
  have panics: "\<exists>msg. RestoreState hello_state ''abc'' = (Some (Panic msg), hello_state)"
    by blast
  have long: "\<not> too_short (checkpoint hello_state)"
  proof
    assume "too_short (checkpoint hello_state)"
    with RestoreState_short_input[of "checkpoint hello_state" "new_writer accepting 16"]
    obtain msg where "RestoreState (new_writer accepting 16) (checkpoint hello_state)
                        = (Some (Panic msg), new_writer accepting 16)"
      by blast
    with ok show False by simp
  qed
  from short panics first long ok show ?thesis by (intro conjI)
qed

subsection \<open>Dumping changes nothing\<close>

text \<open>
  Claim C10. \<open>DumpState(dest)\<close> only appends bytes to \<open>dest\<close>, and the writer after
  the call is the writer before it: the committed and staging buffers, \<open>finished\<close>,
  the three counters and the hint are the same, and so is the outcome of every
  sequence of \<open>Write\<close>, \<open>Flush\<close>, \<open>FlushAll\<close> and \<open>WorthFlushing\<close> calls made
  afterwards.
\<close>

theorem DumpState_frame:
  "(\<exists>bytes. snd (DumpState w dest) = dest @ bytes) \<and>
   fst (DumpState w dest) = w \<and>
   buffer (fst (DumpState w dest)) = buffer w \<and>
   linebuf (fst (DumpState w dest)) = linebuf w \<and>
   finished (fst (DumpState w dest)) = finished w \<and>
   lineCount (fst (DumpState w dest)) = lineCount w \<and>
   savedLineCount (fst (DumpState w dest)) = savedLineCount w \<and>
   prevLineCount (fst (DumpState w dest)) = prevLineCount w \<and>
   worthFlushing (fst (DumpState w dest)) = worthFlushing w \<and>
   (\<forall>cs. execs (fst (DumpState w dest)) cs = execs w cs)"
  by (simp add: DumpState_checkpoint)


section \<open>Properties of the file registry\<close>

subsection \<open>\<open>GetFile\<close>\<close>

text \<open>
  Claim C9. With the registry mutex free, \<open>GetFile(key)\<close> returns the entry of a
  registered key and leaves the registry as it is: the factory is not called. For an
  unregistered key it calls the factory once; when the factory fails, \<open>GetFile\<close>
  returns that error and the map is unchanged; when it succeeds, the new entry, with
  a fresh unlocked mutex, is inserted under the key and returned.
\<close>

theorem GetFile_cases:
  assumes "\<not> itemsLock f"
  shows "(\<forall>buf. items f name = Some buf \<longrightarrow> GetFile f name = Some (Inr buf, f)) \<and>
         (\<forall>err s. items f name = None \<and> factory f (fstate f) name = (Inl err, s) \<longrightarrow>
            GetFile f name =
              Some (Inl err, f\<lparr>fstate := s, trace := trace f @ [FactoryCall name]\<rparr>)) \<and>
         (\<forall>b s. items f name = None \<and> factory f (fstate f) name = (Inr b, s) \<longrightarrow>
            GetFile f name =
              Some (Inr \<lparr>Name = name, Lock = False, Buf = b\<rparr>,
                    f\<lparr>items := (items f)(name \<mapsto> \<lparr>Name = name, Lock = False, Buf = b\<rparr>),
                      fstate := s, trace := trace f @ [FactoryCall name]\<rparr>))"
  using assms by (auto simp: GetFile_def Let_def)

text \<open>
  The three cases of \<open>GetFile\<close> on the example registry: a registered key, a key the
  factory fails for, a key the factory serves.
\<close>

theorem GetFile_cases_witness:
  "\<not> itemsLock example_registry \<and>
   GetFile example_registry ''a.log'' =
     Some (Inr \<lparr>Name = ''a.log'', Lock = False, Buf = stuck_bufferer\<rparr>, example_registry) \<and>
   GetFile example_registry ''bad'' =
     Some (Inl (Failure ''open failed''),
           example_registry\<lparr>fstate := 1, trace := [FactoryCall ''bad'']\<rparr>) \<and>
   GetFile example_registry ''b.log'' =
     Some (Inr \<lparr>Name = ''b.log'', Lock = False, Buf = plain_bufferer\<rparr>,
           example_registry
             \<lparr>items := (items example_registry)
                 (''b.log'' \<mapsto> \<lparr>Name = ''b.log'', Lock = False, Buf = plain_bufferer\<rparr>),
              fstate := 1, trace := [FactoryCall ''b.log'']\<rparr>)"
proof -
  have free: "\<not> itemsLock example_registry" by (simp add: example_registry_def)
  have a: "items example_registry ''a.log''
             = Some \<lparr>Name = ''a.log'', Lock = False, Buf = stuck_bufferer\<rparr>"
    by (simp add: example_registry_def)
  have bad: "items example_registry ''bad'' = None \<and>
             factory example_registry (fstate example_registry) ''bad''
               = (Inl (Failure ''open failed''), 1)"
    by (simp add: example_registry_def example_factory_def)
  have b: "items example_registry ''b.log'' = None \<and>
           factory example_registry (fstate example_registry) ''b.log'' = (Inr plain_bufferer, 1)"
    by (simp add: example_registry_def example_factory_def)
  have t: "trace example_registry = []" by (simp add: example_registry_def)
  from GetFile_cases[OF free, of "''a.log''"] a
  have 1: "GetFile example_registry ''a.log'' =
     Some (Inr \<lparr>Name = ''a.log'', Lock = False, Buf = stuck_bufferer\<rparr>, example_registry)"
    by blast
  from GetFile_cases[OF free, of "''bad''"] bad
  have 2: "GetFile example_registry ''bad'' =
     Some (Inl (Failure ''open failed''),
           example_registry\<lparr>fstate := 1, trace := trace example_registry @ [FactoryCall ''bad'']\<rparr>)"
    by blast
  from GetFile_cases[OF free, of "''b.log''"] b
  have 3: "GetFile example_registry ''b.log'' =
     Some (Inr \<lparr>Name = ''b.log'', Lock = False, Buf = plain_bufferer\<rparr>,
           example_registry
             \<lparr>items := (items example_registry)
                 (''b.log'' \<mapsto> \<lparr>Name = ''b.log'', Lock = False, Buf = plain_bufferer\<rparr>),
              fstate := 1, trace := trace example_registry @ [FactoryCall ''b.log'']\<rparr>)"
    by blast
  from free 1 2 3 show ?thesis by (simp add: t)
qed

subsection \<open>\<open>Logrotate\<close>\<close>

text \<open>
  What \<open>Logrotate\<close> does for a registered key whose mutex is free. When \<open>Close\<close>
  fails, \<open>Bufferer.Logrotate\<close> is not called and the mutex is released, and the
  result is nil: the error of \<open>Close\<close> is held by the variable of the \<open>if\<close>
  statement, not by the named result. When \<open>Close\<close> succeeds, the result is that of
  \<open>Bufferer.Logrotate\<close>, and the mutex is released.
\<close>

lemma Logrotate_when_Close_fails:
  assumes "\<not> itemsLock f" and "items f name = Some buf" and "\<not> Lock buf"
    and "Bufferer_Close (Buf buf) = (Some e, b1)"
  shows "Logrotate f name newpath =
           Some (None,
                 f\<lparr>items := (items f)(name \<mapsto> buf\<lparr>Lock := False, Buf := b1\<rparr>),
                   trace := trace f @ [LockCall (Name buf), CloseCall (Name buf) (Some e),
                                       UnlockCall (Name buf)]\<rparr>)"
  using assms by (auto simp: Logrotate_def Let_def)

lemma Logrotate_when_Close_succeeds:
  assumes "\<not> itemsLock f" and "items f name = Some buf" and "\<not> Lock buf"
    and "Bufferer_Close (Buf buf) = (None, b1)"
    and "Bufferer_Logrotate b1 newpath = (lerr, b2)"
  shows "Logrotate f name newpath =
           Some (lerr,
                 f\<lparr>items := (items f)(name \<mapsto> buf\<lparr>Lock := False, Buf := b2\<rparr>),
                   trace := trace f @ [LockCall (Name buf), CloseCall (Name buf) None,
                                       LogrotateCall (Name buf) newpath lerr,
                                       UnlockCall (Name buf)]\<rparr>)"
  using assms by (auto simp: Logrotate_def Let_def)

text \<open>
  Claim C2. The claim: when \<open>Close\<close> returns an error, \<open>Logrotate\<close> returns that
  error. The code: for the entry \<open>a.log\<close>, whose \<open>Close\<close> fails with
  \<open>close failed\<close>, \<open>Logrotate\<close> takes the mutex, calls \<open>Close\<close>, does not call
  \<open>Bufferer.Logrotate\<close>, releases the mutex, and returns nil.
\<close>

theorem Logrotate_drops_Close_error:
  "Bufferer_Close stuck_bufferer = (Some (Failure ''close failed''), stuck_bufferer) \<and>
   Logrotate example_registry ''a.log'' ''a.log-20261030120000'' =
     Some (None,
           example_registry
             \<lparr>trace := [LockCall ''a.log'', CloseCall ''a.log'' (Some (Failure ''close failed'')),
                        UnlockCall ''a.log'']\<rparr>)"
  by (simp add: Logrotate_def Let_def example_registry_def stuck_bufferer_def Bufferer_Close_def)

end
